theory Spec2Isabelle
  imports Complex_Main "HOL-Library.Sublist" "HOL-Library.AList"
begin

section \<open>JavaScript numbers\<close>

text \<open>
  The worker computes with JavaScript numbers. A finite number is modelled as a real;
  the three special values a division can produce are kept apart, so that a division by
  zero is a visible branch of the model and not HOL's \<open>x / 0 = 0\<close>. The operations of
  this section are exact; the rounding of each operation to a double is modelled in the
  section on double arithmetic, for the normalisation of the scores, where it matters.
\<close>

datatype jsnum = Num real | PosInfinity | NegInfinity | NaN

text \<open>\<open>x / y\<close> for finite \<open>x\<close> and \<open>y\<close>, where a zero \<open>y\<close> is the positive zero
  (a string length, or a product of a sum with the positive zero).\<close>

definition js_div :: "real \<Rightarrow> real \<Rightarrow> jsnum" where
  "js_div x y =
     (if y \<noteq> 0 then Num (x / y)
      else if 0 < x then PosInfinity
      else if x < 0 then NegInfinity
      else NaN)"

text \<open>\<open>Math.min\<close> and \<open>Math.max\<close> of two numbers: NaN is contagious.\<close>

fun js_min :: "jsnum \<Rightarrow> jsnum \<Rightarrow> jsnum" where
  "js_min NaN b = NaN"
| "js_min a NaN = NaN"
| "js_min NegInfinity b = NegInfinity"
| "js_min a NegInfinity = NegInfinity"
| "js_min PosInfinity b = b"
| "js_min a PosInfinity = a"
| "js_min (Num x) (Num y) = Num (min x y)"

fun js_max :: "jsnum \<Rightarrow> jsnum \<Rightarrow> jsnum" where
  "js_max NaN b = NaN"
| "js_max a NaN = NaN"
| "js_max PosInfinity b = PosInfinity"
| "js_max a PosInfinity = PosInfinity"
| "js_max NegInfinity b = b"
| "js_max a NegInfinity = a"
| "js_max (Num x) (Num y) = Num (max x y)"

text \<open>The comparisons \<open>a <= b\<close> and \<open>a < b\<close>: false as soon as one side is NaN.\<close>

fun js_le :: "jsnum \<Rightarrow> jsnum \<Rightarrow> bool" where
  "js_le NaN b = False"
| "js_le a NaN = False"
| "js_le NegInfinity b = True"
| "js_le a PosInfinity = True"
| "js_le (Num x) (Num y) = (x \<le> y)"
| "js_le a b = False"

fun js_lt :: "jsnum \<Rightarrow> jsnum \<Rightarrow> bool" where
  "js_lt NaN b = False"
| "js_lt a NaN = False"
| "js_lt (Num x) (Num y) = (x < y)"
| "js_lt NegInfinity NegInfinity = False"
| "js_lt NegInfinity b = True"
| "js_lt PosInfinity b = False"
| "js_lt a PosInfinity = True"
| "js_lt a b = False"

section \<open>Strings\<close>

text \<open>
  A string is a list of code units; the model has the code units below 256
  (Isabelle's \<open>char\<close>), which covers every character the worker's tables and
  regular expressions name.
\<close>

definition isWhiteSpace :: "char \<Rightarrow> bool" where
  "isWhiteSpace c = (of_char c \<in> {9, 10, 11, 12, 13, 32, 160 :: nat})"

text \<open>\<open>s.trim()\<close>\<close>

definition trim :: "string \<Rightarrow> string" where
  "trim s = rev (dropWhile isWhiteSpace (rev (dropWhile isWhiteSpace s)))"

text \<open>\<open>xs.join(sep)\<close>\<close>

fun join :: "string \<Rightarrow> string list \<Rightarrow> string" where
  "join sep [] = []"
| "join sep [x] = x"
| "join sep (x # y # ys) = x @ sep @ join sep (y # ys)"

text \<open>\<open>s.indexOf(sub)\<close>: the offset of the first occurrence, \<open>-1\<close> when there is none.\<close>

fun indexOfFrom :: "nat \<Rightarrow> string \<Rightarrow> string \<Rightarrow> int" where
  "indexOfFrom i [] sub = (if sub = [] then int i else - 1)"
| "indexOfFrom i (c # cs) sub =
     (if prefix sub (c # cs) then int i else indexOfFrom (Suc i) cs sub)"

definition indexOf :: "string \<Rightarrow> string \<Rightarrow> int" where
  "indexOf s sub = indexOfFrom 0 s sub"

text \<open>\<open>s.includes(sub)\<close>\<close>

definition includes_str :: "string \<Rightarrow> string \<Rightarrow> bool" where
  "includes_str s sub = (0 \<le> indexOf s sub)"

text \<open>\<open>s.toLowerCase()\<close> on the code units below 256: A-Z, and the capital letters
  of Latin-1 (0xC0 to 0xDE without the multiplication sign 0xD7).\<close>

definition toLowerChar :: "char \<Rightarrow> char" where
  "toLowerChar c =
     (let n = (of_char c :: nat) in
      if (65 \<le> n \<and> n \<le> 90) \<or> (192 \<le> n \<and> n \<le> 222 \<and> n \<noteq> 215)
      then char_of (n + 32) else c)"

definition toLowerCase :: "string \<Rightarrow> string" where
  "toLowerCase s = map toLowerChar s"

section \<open>Chunker\<close>

definition WINDOW_SIZE :: nat where "WINDOW_SIZE = 3"
definition STRIDE :: nat where "STRIDE = 1"

record chunk =
  chunk_text :: string
  startRatio :: jsnum
  endRatio :: jsnum

definition isTerminator :: "char \<Rightarrow> bool" where
  "isTerminator c = (c = CHR ''.'' \<or> c = CHR ''!'' \<or> c = CHR ''?'')"

definition isQuote :: "char \<Rightarrow> bool" where
  "isQuote c = (c = CHR 0x22 \<or> c = CHR 0x27)"

text \<open>
  \<open>text.match(/[^.!?]+[.!?]+["']?|[^.!?]+$/g)\<close>, as the list of matches (the empty
  list stands for \<open>null\<close>). Scanning from the left: a terminator where a match
  should start is skipped (neither alternative can start there); otherwise the longest
  run of non-terminators is taken, and either it reaches the end of the text (second
  alternative), or it is followed by the longest run of terminators and one optional
  quote (first alternative). The next match starts where this one ends.
\<close>

function sentenceMatches :: "string \<Rightarrow> string list" where
  "sentenceMatches [] = []"
| "sentenceMatches (c # cs) =
     (if isTerminator c then sentenceMatches cs
      else
        let body = takeWhile (\<lambda>x. \<not> isTerminator x) (c # cs);
            rest = dropWhile (\<lambda>x. \<not> isTerminator x) (c # cs)
        in if rest = [] then [body]
           else
             let punct = takeWhile isTerminator rest;
                 rest' = dropWhile isTerminator rest
             in (case rest' of
                   [] \<Rightarrow> [body @ punct]
                 | q # rest'' \<Rightarrow>
                     if isQuote q then (body @ punct @ [q]) # sentenceMatches rest''
                     else (body @ punct) # sentenceMatches rest'))"
  by pat_completeness auto

termination sentenceMatches
proof (relation "measure length", goal_cases)
  case 1
  show ?case by simp
next
  case (2 c cs)
  show ?case by simp
next
  case (3 c cs body rest punct rest' q rest'')
  then have "dropWhile isTerminator (dropWhile (\<lambda>x. \<not> isTerminator x) cs) = q # rest''"
    by simp
  moreover have "length (dropWhile isTerminator (dropWhile (\<lambda>x. \<not> isTerminator x) cs)) \<le> length cs"
    by (meson length_dropWhile_le order_trans)
  ultimately show ?case by simp
next
  case (4 c cs body rest punct rest' q rest'')
  then have "rest' = dropWhile isTerminator (dropWhile (\<lambda>x. \<not> isTerminator x) cs)"
    by simp
  moreover have "length (dropWhile isTerminator (dropWhile (\<lambda>x. \<not> isTerminator x) cs)) \<le> length cs"
    by (meson length_dropWhile_le order_trans)
  ultimately show ?case by simp
qed

text \<open>
  \<open>text.match(re)?.map(s => s.trim()).filter(s => s.length > 0) || [text]\<close>:
  when there is no match the whole optional chain is \<open>undefined\<close> and the fallback
  \<open>[text]\<close> is taken; an array, even an empty one, is truthy and is kept.
\<close>

definition sentencesOf :: "string \<Rightarrow> string list" where
  "sentencesOf txt =
     (case sentenceMatches txt of
        [] \<Rightarrow> [txt]
      | m # ms \<Rightarrow> filter (\<lambda>s. 0 < length s) (map trim (m # ms)))"

text \<open>The body of the loop for one window: the chunk that is pushed.\<close>

definition mkChunk :: "string \<Rightarrow> string list \<Rightarrow> chunk" where
  "mkChunk txt windowSentences =
     (let chunkText = join '' '' windowSentences;
          chunkStartChar = indexOf txt (case windowSentences of [] \<Rightarrow> [] | s # _ \<Rightarrow> s);
          chunkEndChar = chunkStartChar + int (length chunkText)
      in \<lparr> chunk_text = chunkText,
           startRatio = js_max (Num 0) (js_div (real_of_int chunkStartChar) (real (length txt))),
           endRatio = js_min (Num 1) (js_div (real_of_int chunkEndChar) (real (length txt))) \<rparr>)"

text \<open>The \<open>for\<close> loop of \<open>chunkTextWithWindow\<close>, from index \<open>i\<close> with the chunks
  pushed so far.\<close>

function chunkLoop :: "string \<Rightarrow> string list \<Rightarrow> nat \<Rightarrow> chunk list \<Rightarrow> chunk list" where
  "chunkLoop txt sentences i chunks =
     (if i < length sentences then
        let windowSentences = take WINDOW_SIZE (drop i sentences)
        in if length windowSentences = 0 then chunks
           else
             let chunks' = chunks @ [mkChunk txt windowSentences]
             in if i + WINDOW_SIZE \<ge> length sentences then chunks'
                else chunkLoop txt sentences (i + STRIDE) chunks'
      else chunks)"
  by pat_completeness auto

termination chunkLoop
  by (relation "measure (\<lambda>(txt, sentences, i, chunks). length sentences - i)")
     (auto simp: STRIDE_def WINDOW_SIZE_def)

declare chunkLoop.simps [simp del]

definition chunkTextWithWindow :: "string \<Rightarrow> chunk list" where
  "chunkTextWithWindow txt = chunkLoop txt (sentencesOf txt) 0 []"

section \<open>Intent classifier\<close>

text \<open>
  Each entry of \<open>QUESTION_PATTERNS\<close> is a regular expression of the shape
  \<open>/\b(a1|a2|...)\b/i\<close> over literal alternatives; an entry is kept as the list
  of its alternatives, in the order of the object literal.
\<close>

definition QUESTION_PATTERNS :: "(string \<times> string list) list" where
  "QUESTION_PATTERNS =
    [(''definition'', [''what is'', ''what are'', ''define'', ''meaning of'', ''definition'']),
     (''origin'', [''where does'', ''where do'', ''origin'', ''source'', ''come from'', ''comes from'']),
     (''howTo'', [''how can'', ''how do'', ''how to'', ''ways to'', ''improve'', ''develop'', ''better'']),
     (''example'', [''example'', ''examples'', ''instance'', ''such as'', ''like what'', ''give me'',
                    ''show me'', ''real life'']),
     (''author'', [''who'', ''author'', ''person'', ''says'', ''believes'', ''believed'', ''troward''])]"

definition ANSWER_INDICATORS :: "(string \<times> string list) list" where
  "ANSWER_INDICATORS =
    [(''definition'', [''is'', ''means'', ''refers to'', ''defined as'', ''is like'']),
     (''origin'', [''comes from'', ''source'', ''part of'', ''connected to'']),
     (''howTo'', [''by'', ''through'', ''learn to'', ''practice'', ''listening'', ''trust'']),
     (''example'', [''for example'', ''such as'', ''like when'', ''imagine'', ''think of'']),
     (''author'', [''says'', ''believes'', ''believed'', ''according to''])]"

text \<open>A word character of \<open>\b\<close>: a letter A-Z or a-z, a digit, or the underscore.\<close>

definition isWordChar :: "char \<Rightarrow> bool" where
  "isWordChar c =
     (let n = (of_char c :: nat) in
      (48 \<le> n \<and> n \<le> 57) \<or> (65 \<le> n \<and> n \<le> 90) \<or> (97 \<le> n \<and> n \<le> 122) \<or> n = 95)"

text \<open>\<open>\b\<close> at offset \<open>p\<close> of \<open>s\<close>: exactly one of the two neighbours is a word
  character (outside the string there is none).\<close>

definition wordBoundaryAt :: "string \<Rightarrow> nat \<Rightarrow> bool" where
  "wordBoundaryAt s p =
     ((0 < p \<and> p \<le> length s \<and> isWordChar (s ! (p - 1))) \<noteq> (p < length s \<and> isWordChar (s ! p)))"

text \<open>The \<open>i\<close> flag compares canonical characters. The alternatives are ASCII, and a
  character outside ASCII is never canonically equal to an ASCII one, so folding the
  ASCII letters decides every comparison with a pattern character.\<close>

definition canonicalize :: "char \<Rightarrow> char" where
  "canonicalize c =
     (let n = (of_char c :: nat) in if 97 \<le> n \<and> n \<le> 122 then char_of (n - 32) else c)"

definition literalAt :: "string \<Rightarrow> string \<Rightarrow> nat \<Rightarrow> bool" where
  "literalAt alt s p =
     (p + length alt \<le> length s \<and>
      map canonicalize (take (length alt) (drop p s)) = map canonicalize alt)"

text \<open>\<open>pattern.test(query)\<close>: some offset and some alternative match between two
  word boundaries (backtracking tries every alternative at every offset).\<close>

definition regexTest :: "string list \<Rightarrow> string \<Rightarrow> bool" where
  "regexTest alts s =
     list_ex (\<lambda>p. list_ex (\<lambda>alt. wordBoundaryAt s p \<and> literalAt alt s p \<and>
                                   wordBoundaryAt s (p + length alt)) alts)
             [0 ..< Suc (length s)]"

definition detectQuestionIntent :: "string \<Rightarrow> string list" where
  "detectQuestionIntent query =
     (let intents = fold (\<lambda>(type, pattern) intents.
                            if regexTest pattern query then intents @ [type] else intents)
                         QUESTION_PATTERNS []
      in if 0 < length intents then intents else [''general''])"

section \<open>Heuristic boost\<close>

text \<open>\<open>ANSWER_INDICATORS[intent] || []\<close>, for the keys of the table itself.\<close>

definition indicatorsOf :: "string \<Rightarrow> string list" where
  "indicatorsOf intent = (case map_of ANSWER_INDICATORS intent of None \<Rightarrow> [] | Some xs \<Rightarrow> xs)"

definition calculateHeuristicBoost :: "string \<Rightarrow> string list \<Rightarrow> real" where
  "calculateHeuristicBoost txt intents =
     (let lowerText = toLowerCase txt;
          boost = fold (\<lambda>intent boost.
                          fold (\<lambda>indicator boost.
                                  if includes_str lowerText indicator then boost + 1 / 10 else boost)
                               (indicatorsOf intent) boost)
                       intents 0
      in min boost (3 / 10))"

section \<open>Retriever and re-ranker\<close>

text \<open>
  The embedder and the index engine are outside the worker: the embedder is the function
  held in \<open>embedderPipeline\<close>, the engine's \<open>search\<close> is a parameter of the
  model. Either may throw; the value thrown is an \<open>Error\<close> with its message, or
  anything else. The scores the engine returns are taken to be finite numbers.
\<close>

datatype thrown = Error string | NotAnError

record document =
  doc_id :: string
  segmentId :: string
  doc_text :: string
  fullSegmentText :: string
  doc_start :: real
  doc_end :: real
  embedding :: "real list"

record hit =
  hit_score :: real
  hit_document :: document

record transcript_segment =
  seg_id :: string
  seg_text :: string
  seg_start :: real
  seg_end :: real

record 's search_result =
  segment :: transcript_segment
  score :: 's

text \<open>The argument of the engine's \<open>search\<close>.\<close>

record search_params =
  q_mode :: string
  q_term :: string
  q_vector_value :: "real list"
  q_vector_property :: string
  q_properties :: "string list"
  q_limit :: int
  q_similarity :: real

record 'db worker_state =
  embedderPipeline :: "(string \<Rightarrow> thrown + real list) option"
  oramaDb :: "'db option"

datatype worker_output =
    SearchResultsMsg "jsnum search_result list" string
  | ErrorMsg string string

text \<open>What one call of \<open>semanticSearch\<close> does: the queries it sent to the engine, and
  the message it posted (without the elapsed time).\<close>

record search_run =
  engine_calls :: "search_params list"
  posted :: worker_output

definition errorMessage :: "thrown \<Rightarrow> string \<Rightarrow> string" where
  "errorMessage e fallback = (case e of Error m \<Rightarrow> m | NotAnError \<Rightarrow> fallback)"

definition hybridQuery :: "string \<Rightarrow> real list \<Rightarrow> search_params" where
  "hybridQuery query queryVector =
     \<lparr> q_mode = ''hybrid'', q_term = query, q_vector_value = queryVector,
       q_vector_property = ''embedding'', q_properties = [''text''],
       q_limit = 20, q_similarity = 4 / 10 \<rparr>"

text \<open>
  The body of the loop over the hits. \<open>scoredResults\<close> is a \<open>Map\<close>, which keeps
  its keys in insertion order and leaves a key in place when its value is replaced: an
  association list with \<open>AList.update\<close>.
\<close>

definition scoreHit ::
  "string list \<Rightarrow> hit \<Rightarrow> (string \<times> real search_result) list \<Rightarrow> (string \<times> real search_result) list"
where
  "scoreHit intents h scoredResults =
     (let doc = hit_document h;
          heuristicBoost = calculateHeuristicBoost (doc_text doc) intents;
          finalScore = hit_score h + heuristicBoost;
          entry = \<lparr> segment = \<lparr> seg_id = segmentId doc, seg_text = fullSegmentText doc,
                                  seg_start = doc_start doc, seg_end = doc_end doc \<rparr>,
                    score = finalScore \<rparr>
      in case map_of scoredResults (segmentId doc) of
           None \<Rightarrow> AList.update (segmentId doc) entry scoredResults
         | Some existing \<Rightarrow>
             if finalScore > score existing
             then AList.update (segmentId doc) entry scoredResults
             else scoredResults)"

text \<open>\<open>xs.slice(0, n)\<close> for an integer \<open>n\<close>: a negative \<open>n\<close> counts from the end.\<close>

definition slice0 :: "'a list \<Rightarrow> int \<Rightarrow> 'a list" where
  "slice0 xs n = (if 0 \<le> n then take (nat n) xs else take (nat (int (length xs) + n)) xs)"

text \<open>\<open>Array.from(scoredResults.values()).sort((a, b) => b.score - a.score).slice(0, limit)\<close>;
  the sort is stable.\<close>

definition rankedResults ::
  "string list \<Rightarrow> hit list \<Rightarrow> int \<Rightarrow> real search_result list"
where
  "rankedResults intents hits limit =
     slice0 (sort_key (\<lambda>r. - score r) (map snd (fold (scoreHit intents) hits []))) limit"

text \<open>The normalisation of the scores, with exact operations: the segments it posts and
  the division by a zero top score do not depend on rounding. \<open>normalizeScoresDouble\<close>
  below is the same step with every operation rounded to a double.\<close>

definition normalizeScores :: "real search_result list \<Rightarrow> jsnum search_result list" where
  "normalizeScores results =
     (case results of
        [] \<Rightarrow> []
      | r0 # _ \<Rightarrow>
          let maxScore = score r0
          in map (\<lambda>r. \<lparr> segment = segment r,
                         score = js_min (js_div (score r) (maxScore * (11 / 10))) (Num (99 / 100)) \<rparr>)
                 results)"

definition semanticSearch ::
  "('db \<Rightarrow> search_params \<Rightarrow> thrown + hit list) \<Rightarrow> 'db worker_state \<Rightarrow> string \<Rightarrow> int option
     \<Rightarrow> search_run"
where
  "semanticSearch search st query limit_arg =
     (let limit = (case limit_arg of None \<Rightarrow> 10 | Some l \<Rightarrow> l)
      in case (embedderPipeline st, oramaDb st) of
           (Some embedder, Some db) \<Rightarrow>
             (let intents = detectQuestionIntent query
              in case embedder query of
                   Inl e \<Rightarrow> \<lparr> engine_calls = [],
                              posted = ErrorMsg (errorMessage e ''Search failed'') ''search'' \<rparr>
                 | Inr queryVector \<Rightarrow>
                     (case search db (hybridQuery query queryVector) of
                        Inl e \<Rightarrow> \<lparr> engine_calls = [hybridQuery query queryVector],
                                   posted = ErrorMsg (errorMessage e ''Search failed'') ''search'' \<rparr>
                      | Inr hits \<Rightarrow>
                          \<lparr> engine_calls = [hybridQuery query queryVector],
                            posted = SearchResultsMsg
                                       (normalizeScores (rankedResults intents hits limit)) query \<rparr>))
         | _ \<Rightarrow> \<lparr> engine_calls = [],
                  posted = ErrorMsg ''Models not ready'' ''search'' \<rparr>)"

section \<open>Double arithmetic\<close>

text \<open>
  A JavaScript number is an IEEE 754 binary64 value, and every arithmetic operation
  returns the exact result rounded to the nearest double, a tie going to the even
  significand. \<open>roundDouble\<close> is that rounding of a real. For a magnitude \<open>a\<close> its
  exponent \<open>e\<close> has \<open>2^e <= a < 2^(e+1)\<close>, kept within \<open>-1022\<close> (below it the
  doubles are subnormal and equally spaced) and \<open>1024\<close>; the doubles around \<open>a\<close> are
  the multiples of \<open>2^(e-52)\<close>, and a rounded magnitude of \<open>2^1024\<close> or more is an
  infinity. \<open>halvings n a\<close> counts how often \<open>a\<close> is halved before it is below 2,
  \<open>doublings n a\<close> how often it is doubled before it is at least 1, each at most \<open>n\<close>
  times. The sign of a zero is not kept.
\<close>

function halvings :: "nat \<Rightarrow> real \<Rightarrow> nat" where
  "halvings n a = (if n = 0 \<or> a < 2 then 0 else Suc (halvings (n - 1) (a / 2)))"
  by pat_completeness auto
termination by (relation "measure fst") auto
declare halvings.simps [simp del]

function doublings :: "nat \<Rightarrow> real \<Rightarrow> nat" where
  "doublings n a = (if n = 0 \<or> 1 \<le> a then 0 else Suc (doublings (n - 1) (a * 2)))"
  by pat_completeness auto
termination by (relation "measure fst") auto
declare doublings.simps [simp del]

definition exponentOf :: "real \<Rightarrow> int" where
  "exponentOf a = (if 1 \<le> a then int (halvings 1024 a) else - int (doublings 1022 a))"

definition roundHalfEven :: "real \<Rightarrow> int" where
  "roundHalfEven y =
     (let f = \<lfloor>y\<rfloor>; d = y - of_int f
      in if d < 1 / 2 then f else if 1 / 2 < d then f + 1 else if even f then f else f + 1)"

definition overflowLimit :: real where
  "overflowLimit = 2 ^ 1024"

definition roundDouble :: "real \<Rightarrow> jsnum" where
  "roundDouble x =
     (if x = 0 then Num 0
      else
        let a = \<bar>x\<bar>;
            q = 2 powi (exponentOf a - 52);
            v = of_int (roundHalfEven (a / q)) * q
        in if overflowLimit \<le> v then (if 0 < x then PosInfinity else NegInfinity)
           else Num (if 0 < x then v else - v))"

text \<open>The real value of a literal such as \<open>1.1\<close>: the double nearest to it.\<close>

definition doubleOf :: "real \<Rightarrow> real" where
  "doubleOf x = (case roundDouble x of Num v \<Rightarrow> v | _ \<Rightarrow> 0)"

text \<open>\<open>x / y\<close> for a finite \<open>x\<close>, rounded: a finite number divided by an infinity is
  zero, and a zero divisor is the case of \<open>js_div\<close>.\<close>

fun js_divide :: "real \<Rightarrow> jsnum \<Rightarrow> jsnum" where
  "js_divide x (Num y) = (if y = 0 then js_div x 0 else roundDouble (x / y))"
| "js_divide x PosInfinity = Num 0"
| "js_divide x NegInfinity = Num 0"
| "js_divide x NaN = NaN"

text \<open>
  The normalisation at the end of \<open>semanticSearch\<close> with its operations rounded: the
  product \<open>maxScore * 1.1\<close>, the quotient \<open>r.score / (maxScore * 1.1)\<close>, and the
  literals \<open>1.1\<close> and \<open>0.99\<close>. \<open>Math.min\<close> is exact.
\<close>

definition normalizeScoresDouble :: "real search_result list \<Rightarrow> jsnum search_result list" where
  "normalizeScoresDouble results =
     (case results of
        [] \<Rightarrow> []
      | r0 # _ \<Rightarrow>
          let maxScore = score r0;
              divisor = roundDouble (maxScore * doubleOf (11 / 10))
          in map (\<lambda>r. \<lparr> segment = segment r,
                         score = js_min (js_divide (score r) divisor) (roundDouble (99 / 100)) \<rparr>)
                 results)"

section \<open>Indexer: from the transcription to the chunks\<close>

text \<open>
  The part of \<open>transcribeAudio\<close> that decides which texts the chunker is given. The
  speech recogniser returns a list of results; a result may have an array \<open>chunks\<close>,
  whose entries have two timestamps and possibly a text. A segment is pushed for a chunk
  only under \<open>if(text)\<close>, where \<open>text\<close> is \<open>chunk.text?.trim() ?? ''\<close>, and
  \<open>chunkTextWithWindow\<close> is called once for each segment, on its text; the function is
  not exported and has no other caller. \<open>generateId()\<close> returns a fresh identifier: the
  model takes it as a function of the number of segments pushed so far.
\<close>

record asr_chunk =
  timestamp_start :: real
  timestamp_end :: real
  asr_text :: "string option"

record asr_result =
  asr_chunks :: "asr_chunk list option"

definition chunksOf :: "asr_result \<Rightarrow> asr_chunk list" where
  "chunksOf result = (case asr_chunks result of None \<Rightarrow> [] | Some chunks \<Rightarrow> chunks)"

definition segmentText :: "asr_chunk \<Rightarrow> string" where
  "segmentText c = (case asr_text c of None \<Rightarrow> [] | Some t \<Rightarrow> trim t)"

definition collectChunk ::
  "(nat \<Rightarrow> string) \<Rightarrow> asr_chunk \<Rightarrow> transcript_segment list \<Rightarrow> transcript_segment list"
where
  "collectChunk generateId c segments =
     (let text = segmentText c
      in if text \<noteq> []
         then segments @ [\<lparr> seg_id = generateId (length segments), seg_text = text,
                             seg_start = timestamp_start c, seg_end = timestamp_end c \<rparr>]
         else segments)"

definition collectSegments :: "(nat \<Rightarrow> string) \<Rightarrow> asr_result list \<Rightarrow> transcript_segment list" where
  "collectSegments generateId results =
     fold (\<lambda>result segments. fold (collectChunk generateId) (chunksOf result) segments) results []"

definition segmentChunks ::
  "(nat \<Rightarrow> string) \<Rightarrow> asr_result list \<Rightarrow> (transcript_segment \<times> chunk list) list"
where
  "segmentChunks generateId results =
     map (\<lambda>segment. (segment, chunkTextWithWindow (seg_text segment)))
         (collectSegments generateId results)"

section \<open>Notions for stating the re-ranking\<close>

text \<open>The score of a hit after the boost, and the result that the loop stores for a hit
  (the two \<open>let\<close>s of \<open>scoreHit\<close>, by name).\<close>

definition boostedScore :: "string list \<Rightarrow> hit \<Rightarrow> real" where
  "boostedScore intents h = hit_score h + calculateHeuristicBoost (doc_text (hit_document h)) intents"

definition resultOf :: "string list \<Rightarrow> hit \<Rightarrow> real search_result" where
  "resultOf intents h =
     \<lparr> segment = \<lparr> seg_id = segmentId (hit_document h), seg_text = fullSegmentText (hit_document h),
                     seg_start = doc_start (hit_document h), seg_end = doc_end (hit_document h) \<rparr>,
       score = boostedScore intents h \<rparr>"

text \<open>\<open>bestOf intents hs k r\<close>: \<open>r\<close> is the result of a hit of segment \<open>k\<close> among
  \<open>hs\<close> whose boosted score no other hit of that segment exceeds. \<open>scoredInv\<close> is
  the invariant of the loop over the hits.\<close>

definition bestOf :: "string list \<Rightarrow> hit list \<Rightarrow> string \<Rightarrow> real search_result \<Rightarrow> bool" where
  "bestOf intents hs k r =
     (\<exists>h \<in> set hs. segmentId (hit_document h) = k \<and> r = resultOf intents h \<and>
        (\<forall>h' \<in> set hs. segmentId (hit_document h') = k \<longrightarrow>
           boostedScore intents h' \<le> boostedScore intents h))"

definition scoredInv :: "string list \<Rightarrow> hit list \<Rightarrow> (string \<times> real search_result) list \<Rightarrow> bool" where
  "scoredInv intents hs m =
     (distinct (map fst m) \<and>
      (\<forall>k r. map_of m k = Some r \<longrightarrow> bestOf intents hs k r) \<and>
      (\<forall>h \<in> set hs. map_of m (segmentId (hit_document h)) \<noteq> None))"

section \<open>Fixtures\<close>

text \<open>A worker whose models are loaded, an embedder that answers every text with one unit
  vector, an engine that answers every query with a given list of hits, and a hit for a
  passage of a segment.\<close>

definition unitVector :: "real list" where
  "unitVector = 1 # replicate 383 0"

definition fixedEmbedder :: "string \<Rightarrow> thrown + real list" where
  "fixedEmbedder q = Inr unitVector"

definition engineReturning :: "hit list \<Rightarrow> unit \<Rightarrow> search_params \<Rightarrow> thrown + hit list" where
  "engineReturning hits db params = Inr hits"

definition readyState :: "unit worker_state" where
  "readyState = \<lparr> embedderPipeline = Some fixedEmbedder, oramaDb = Some () \<rparr>"

definition passageHit :: "string \<Rightarrow> string \<Rightarrow> string \<Rightarrow> real \<Rightarrow> hit" where
  "passageHit sid chunkText segText s =
     \<lparr> hit_score = s,
       hit_document = \<lparr> doc_id = sid @ ''_0'', segmentId = sid, doc_text = chunkText,
                        fullSegmentText = segText, doc_start = 0, doc_end = 5,
                        embedding = unitVector \<rparr> \<rparr>"

text \<open>An identifier for each count of segments, to run the indexer on concrete results.\<close>

definition numberedId :: "nat \<Rightarrow> string" where
  "numberedId n = ''seg_'' @ replicate n (CHR ''i'')"

section \<open>The chunker on the empty text\<close>

text \<open>
  Claim C3 says that for the empty input text the chunker returns no chunk. The regular
  expression has no match in the empty text, so the fallback \<open>[text]\<close> makes the empty
  string the only sentence; the loop runs once and the function returns one chunk, whose
  text is empty and whose two ratios are \<open>0 / 0\<close>, that is NaN.
\<close>

theorem chunker_empty_text_yields_nan_chunk:
  "chunkTextWithWindow '''' = [\<lparr> chunk_text = '''', startRatio = NaN, endRatio = NaN \<rparr>]"
  by (simp add: chunkTextWithWindow_def chunkLoop.simps sentencesOf_def mkChunk_def
      WINDOW_SIZE_def indexOf_def js_div_def)

text \<open>
  Claim C5 says that \<open>startRatio <= endRatio\<close> holds for every chunk of every input
  text. On the empty text the one chunk has NaN for both ratios, and the comparison is
  false.
\<close>

theorem chunker_empty_text_ratio_order_fails:
  "map (\<lambda>c. js_le (startRatio c) (endRatio c)) (chunkTextWithWindow '''') = [False]"
  by (simp add: chunkTextWithWindow_def chunkLoop.simps sentencesOf_def mkChunk_def
      WINDOW_SIZE_def indexOf_def js_div_def)

text \<open>A text of spaces only has one match, which the filter drops after trimming: the
  sentence list is empty and no chunk is pushed.\<close>

lemma chunker_whitespace_text_no_chunk: "chunkTextWithWindow ''   '' = []"
  by (simp add: chunkTextWithWindow_def chunkLoop.simps sentencesOf_def isTerminator_def
      trim_def isWhiteSpace_def)

section \<open>Empty texts are dropped before the chunker\<close>

text \<open>The loop over the transcription pushes a segment only for a non-empty trimmed
  text, so every segment has a non-empty text, and chunks without one leave the list of
  segments as it is.\<close>

lemma collectChunk_empty: "segmentText c = [] \<Longrightarrow> collectChunk generateId c segments = segments"
  by (simp add: collectChunk_def)

lemma collectChunk_nonempty:
  assumes "\<forall>s \<in> set segments. seg_text s \<noteq> []"
  shows "\<forall>s \<in> set (collectChunk generateId c segments). seg_text s \<noteq> []"
  using assms by (auto simp: collectChunk_def Let_def)

lemma fold_collectChunk_nonempty:
  "\<forall>s \<in> set segments. seg_text s \<noteq> [] \<Longrightarrow>
   \<forall>s \<in> set (fold (collectChunk generateId) cs segments). seg_text s \<noteq> []"
proof (induction cs arbitrary: segments)
  case Nil
  then show ?case by simp
next
  case (Cons c cs)
  from collectChunk_nonempty[OF Cons.prems] show ?case
    by (simp only: fold_simps) (rule Cons.IH)
qed

lemma fold_results_nonempty:
  "\<forall>s \<in> set segments. seg_text s \<noteq> [] \<Longrightarrow>
   \<forall>s \<in> set (fold (\<lambda>result segments. fold (collectChunk generateId) (chunksOf result) segments)
                   results segments). seg_text s \<noteq> []"
proof (induction results arbitrary: segments)
  case Nil
  then show ?case by simp
next
  case (Cons r rs)
  from fold_collectChunk_nonempty[OF Cons.prems] show ?case
    by (simp only: fold_simps) (rule Cons.IH)
qed

lemma collectSegments_text_nonempty:
  "s \<in> set (collectSegments generateId results) \<Longrightarrow> seg_text s \<noteq> []"
  using fold_results_nonempty[of "[]" generateId results] by (simp add: collectSegments_def)

lemma fold_collectChunk_empty:
  "\<forall>c \<in> set cs. segmentText c = [] \<Longrightarrow> fold (collectChunk generateId) cs segments = segments"
  by (induction cs arbitrary: segments) (simp_all add: collectChunk_empty)

lemma fold_results_empty:
  "\<forall>r \<in> set results. \<forall>c \<in> set (chunksOf r). segmentText c = [] \<Longrightarrow>
   fold (\<lambda>result segments. fold (collectChunk generateId) (chunksOf result) segments) results segments
   = segments"
  by (induction results arbitrary: segments) (simp_all add: fold_collectChunk_empty)

text \<open>
  Claim C3, amended: the chunker is never given an empty text, and an empty text yields
  no chunk, because the indexer drops it first. A transcription chunk whose text is
  missing, empty or blank adds no segment; when every chunk is such, there is no segment
  and no chunk at all; and every text on which the indexer calls the chunker is
  non-empty, the chunks of a segment being those of \<open>chunkTextWithWindow\<close> on its text.
\<close>

theorem empty_text_never_reaches_chunker:
  "(segmentText c = [] \<longrightarrow> collectChunk generateId c segments = segments)
   \<and> ((\<forall>r \<in> set results. \<forall>c \<in> set (chunksOf r). segmentText c = []) \<longrightarrow>
        segmentChunks generateId results = [])
   \<and> (\<forall>p \<in> set (segmentChunks generateId results).
         seg_text (fst p) \<noteq> [] \<and> snd p = chunkTextWithWindow (seg_text (fst p)))"
proof (intro conjI impI ballI)
  assume "segmentText c = []"
  then show "collectChunk generateId c segments = segments" by (rule collectChunk_empty)
next
  assume "\<forall>r \<in> set results. \<forall>c \<in> set (chunksOf r). segmentText c = []"
  then show "segmentChunks generateId results = []"
    by (simp add: segmentChunks_def collectSegments_def fold_results_empty)
next
  fix p assume "p \<in> set (segmentChunks generateId results)"
  then obtain s where "s \<in> set (collectSegments generateId results)"
    and "p = (s, chunkTextWithWindow (seg_text s))"
    by (auto simp: segmentChunks_def)
  then show "seg_text (fst p) \<noteq> []" and "snd p = chunkTextWithWindow (seg_text (fst p))"
    using collectSegments_text_nonempty[of s generateId results] by simp_all
qed

theorem empty_text_never_reaches_chunker_witness:
  "segmentText \<lparr> timestamp_start = 2, timestamp_end = 3, asr_text = Some '''' \<rparr> = []
   \<and> collectChunk numberedId \<lparr> timestamp_start = 2, timestamp_end = 3, asr_text = Some '''' \<rparr>
        [\<lparr> seg_id = ''seg_'', seg_text = ''Hi.'', seg_start = 0, seg_end = 1 \<rparr>]
      = [\<lparr> seg_id = ''seg_'', seg_text = ''Hi.'', seg_start = 0, seg_end = 1 \<rparr>]
   \<and> map (\<lambda>r. map segmentText (chunksOf r))
        [\<lparr> asr_chunks = Some [\<lparr> timestamp_start = 0, timestamp_end = 1, asr_text = Some ''  '' \<rparr>,
                              \<lparr> timestamp_start = 1, timestamp_end = 2, asr_text = None \<rparr>] \<rparr>,
         \<lparr> asr_chunks = None \<rparr>] = [[[], []], []]
   \<and> segmentChunks numberedId
        [\<lparr> asr_chunks = Some [\<lparr> timestamp_start = 0, timestamp_end = 1, asr_text = Some ''  '' \<rparr>,
                              \<lparr> timestamp_start = 1, timestamp_end = 2, asr_text = None \<rparr>] \<rparr>,
         \<lparr> asr_chunks = None \<rparr>] = []
   \<and> (\<lparr> seg_id = ''seg_'', seg_text = ''Hi.'', seg_start = 0, seg_end = 1 \<rparr>,
       chunkTextWithWindow ''Hi.'')
       \<in> set (segmentChunks numberedId
            [\<lparr> asr_chunks = Some [\<lparr> timestamp_start = 0, timestamp_end = 1, asr_text = Some '' Hi. '' \<rparr>,
                                  \<lparr> timestamp_start = 2, timestamp_end = 3, asr_text = Some '''' \<rparr>] \<rparr>])
   \<and> ''Hi.'' \<noteq> []"
proof -
  let ?c = "\<lparr> timestamp_start = 2, timestamp_end = 3, asr_text = Some '''' \<rparr>"
  let ?segs = "[\<lparr> seg_id = ''seg_'', seg_text = ''Hi.'', seg_start = 0, seg_end = 1 \<rparr>]"
  let ?empty = "[\<lparr> asr_chunks = Some [\<lparr> timestamp_start = 0, timestamp_end = 1, asr_text = Some ''  '' \<rparr>,
                                        \<lparr> timestamp_start = 1, timestamp_end = 2, asr_text = None \<rparr>] \<rparr>,
                 \<lparr> asr_chunks = None \<rparr>]"
  let ?one = "[\<lparr> asr_chunks = Some [\<lparr> timestamp_start = 0, timestamp_end = 1, asr_text = Some '' Hi. '' \<rparr>,
                                  \<lparr> timestamp_start = 2, timestamp_end = 3, asr_text = Some '''' \<rparr>] \<rparr>]"
  let ?p = "(\<lparr> seg_id = ''seg_'', seg_text = ''Hi.'', seg_start = 0, seg_end = 1 \<rparr>,
       chunkTextWithWindow ''Hi.'')"
  have z: "segmentText ?c = []" by (simp add: segmentText_def trim_def)
  have a: "\<forall>r \<in> set ?empty. \<forall>c \<in> set (chunksOf r). segmentText c = []"
    by (simp add: chunksOf_def segmentText_def trim_def isWhiteSpace_def)
  have a': "map (\<lambda>r. map segmentText (chunksOf r)) ?empty = [[[], []], []]"
    by (simp add: chunksOf_def segmentText_def trim_def isWhiteSpace_def)
  have b: "?p \<in> set (segmentChunks numberedId ?one)"
    by (simp add: segmentChunks_def collectSegments_def collectChunk_def chunksOf_def
        segmentText_def trim_def isWhiteSpace_def numberedId_def)
  from z empty_text_never_reaches_chunker[where c = ?c and generateId = numberedId and segments = ?segs]
  have y: "collectChunk numberedId ?c ?segs = ?segs" by blast
  from a empty_text_never_reaches_chunker[where results = ?empty and generateId = numberedId]
  have c: "segmentChunks numberedId ?empty = []" by blast
  from b empty_text_never_reaches_chunker[where results = ?one and generateId = numberedId]
  have "seg_text (fst ?p) \<noteq> []" by blast
  then have d: "''Hi.'' \<noteq> []" by simp
  show ?thesis by (rule conjI[OF z conjI[OF y conjI[OF a' conjI[OF c conjI[OF b d]]]]])
qed

section \<open>Intent classifier and boost\<close>

lemma fold_indicator:
  "fold (\<lambda>indicator boost. if P indicator then boost + 1 / 10 else boost) xs (b::real)
   = b + real (length (filter P xs)) / 10"
  by (induction xs arbitrary: b) (auto simp: field_simps)

lemma fold_intents:
  "fold (\<lambda>intent boost.
           fold (\<lambda>indicator boost. if P indicator then boost + 1 / 10 else boost) (f intent) boost)
        intents (b::real)
   = b + real (length (filter P (concat (map f intents)))) / 10"
  by (induction intents arbitrary: b) (auto simp: fold_indicator field_simps)

text \<open>
  Claim C7: for every passage text and every list of intents, the boost is one tenth for
  each indicator phrase of the listed intents that the lowercased text includes, capped
  at 0.3; so it lies in the closed interval from 0 to 0.3.
\<close>

theorem heuristic_boost_bounds:
  "calculateHeuristicBoost txt intents =
     min (real (length (filter (includes_str (toLowerCase txt))
                          (concat (map indicatorsOf intents)))) / 10) (3 / 10)
   \<and> 0 \<le> calculateHeuristicBoost txt intents
   \<and> calculateHeuristicBoost txt intents \<le> 3 / 10"
  by (simp add: calculateHeuristicBoost_def fold_intents Let_def)

lemma fold_push:
  "fold (\<lambda>(type, pattern) intents. if P pattern then intents @ [type] else intents) ps acc
   = acc @ map fst (filter (\<lambda>(type, pattern). P pattern) ps)"
  by (induction ps arbitrary: acc) auto

text \<open>
  Claim C8: the classifier returns the labels whose pattern matches the query, in the
  order definition, origin, howTo, example, author and each at most once; it returns the
  single label general when no pattern matches; its result is never empty.
\<close>

theorem intent_classifier_labels:
  "detectQuestionIntent q =
     (let matching = map fst (filter (\<lambda>(type, pattern). regexTest pattern q) QUESTION_PATTERNS)
      in if matching = [] then [''general''] else matching)
   \<and> detectQuestionIntent q \<noteq> []
   \<and> map fst QUESTION_PATTERNS = [''definition'', ''origin'', ''howTo'', ''example'', ''author'']"
proof -
  have labels: "map fst QUESTION_PATTERNS = [''definition'', ''origin'', ''howTo'', ''example'', ''author'']"
    unfolding QUESTION_PATTERNS_def by simp
  have eq: "detectQuestionIntent q =
     (let matching = map fst (filter (\<lambda>(type, pattern). regexTest pattern q) QUESTION_PATTERNS)
      in if matching = [] then [''general''] else matching)"
    by (simp add: detectQuestionIntent_def fold_push Let_def)
  have ne: "detectQuestionIntent q \<noteq> []"
    by (subst eq) (simp only: Let_def if_split, simp)
  from eq ne labels show ?thesis by blast
qed

section \<open>The query sent to the engine\<close>

lemma semanticSearch_ready:
  assumes "embedderPipeline st = Some embedder" "oramaDb st = Some db"
    "embedder query = Inr v" "search db (hybridQuery query v) = Inr hits"
  shows "semanticSearch search st query limit =
     \<lparr> engine_calls = [hybridQuery query v],
       posted = SearchResultsMsg
                  (normalizeScores (rankedResults (detectQuestionIntent query) hits
                                      (case limit of None \<Rightarrow> 10 | Some l \<Rightarrow> l))) query \<rparr>"
  using assms by (simp add: semanticSearch_def Let_def)

lemma engine_calls_cases:
  "engine_calls (semanticSearch search st query limit) = [] \<or>
   (\<exists>v. engine_calls (semanticSearch search st query limit) = [hybridQuery query v])"
  by (auto simp: semanticSearch_def split: option.splits sum.splits)

text \<open>
  Claim C6 says that the query asks for twice the limit. With the limit 20 (the limit
  that the user interface sends) the query sent to the engine asks for 20 candidates,
  not for 40.
\<close>

theorem hybrid_query_limit_twenty_counterexample:
  "map q_limit (engine_calls (semanticSearch (engineReturning []) readyState ''x'' (Some 20))) = [20]
   \<and> (20 :: int) \<noteq> 2 * 20"
  by (simp add: semanticSearch_def readyState_def fixedEmbedder_def engineReturning_def
      hybridQuery_def)

text \<open>
  Claim C6, amended: every query that a search sends to the engine asks for 20
  candidates, whatever the limit of the search is (twice the limit only at the default
  limit 10), and carries the similarity floor 0.4.
\<close>

theorem hybrid_query_requests_twenty:
  "p \<in> set (engine_calls (semanticSearch search st query limit)) \<Longrightarrow>
   q_limit p = 20 \<and> q_similarity p = 4 / 10"
  using engine_calls_cases[of search st query limit]
  by (auto simp: hybridQuery_def)

theorem hybrid_query_requests_twenty_witness:
  "hybridQuery ''x'' unitVector
     \<in> set (engine_calls (semanticSearch (engineReturning []) readyState ''x'' (Some 5)))
   \<and> q_limit (hybridQuery ''x'' unitVector) = 20
   \<and> q_similarity (hybridQuery ''x'' unitVector) = 4 / 10"
proof -
  have m: "hybridQuery ''x'' unitVector
     \<in> set (engine_calls (semanticSearch (engineReturning []) readyState ''x'' (Some 5)))"
    by (simp add: semanticSearch_def readyState_def fixedEmbedder_def engineReturning_def)
  show ?thesis
    using m hybrid_query_requests_twenty[OF m] by simp
qed

section \<open>A search without hits\<close>

lemma slice0_Nil: "slice0 [] n = []"
  by (simp add: slice0_def)

lemma rankedResults_Nil: "rankedResults intents [] limit = []"
  by (simp add: rankedResults_def slice0_Nil)

text \<open>
  Claim C9: when the models are loaded, the embedder answers the query and the engine
  answers the hybrid query with no hit (as it does on an index without passages, or when
  no passage passes the similarity floor), the search posts the result message with the
  empty list of results, and no error message.
\<close>

theorem empty_hits_empty_results:
  assumes "embedderPipeline st = Some embedder" "oramaDb st = Some db"
    "embedder query = Inr v" "search db (hybridQuery query v) = Inr []"
  shows "posted (semanticSearch search st query limit) = SearchResultsMsg [] query"
  using semanticSearch_ready[of st embedder db query v search "[]" limit] assms
  by (simp add: rankedResults_Nil normalizeScores_def)

theorem empty_hits_empty_results_witness:
  "embedderPipeline readyState = Some fixedEmbedder \<and> oramaDb readyState = Some () \<and>
   fixedEmbedder ''who'' = Inr unitVector \<and>
   engineReturning [] () (hybridQuery ''who'' unitVector) = Inr [] \<and>
   posted (semanticSearch (engineReturning []) readyState ''who'' None) = SearchResultsMsg [] ''who''"
proof -
  have a: "embedderPipeline readyState = Some fixedEmbedder" by (simp add: readyState_def)
  have b: "oramaDb readyState = Some ()" by (simp add: readyState_def)
  have c: "fixedEmbedder ''who'' = Inr unitVector" by (simp add: fixedEmbedder_def)
  have d: "engineReturning [] () (hybridQuery ''who'' unitVector) = Inr []"
    by (simp add: engineReturning_def)
  show ?thesis
    using a b c d
      empty_hits_empty_results[of readyState fixedEmbedder "()" "''who''" unitVector
        "engineReturning []" None]
    by simp
qed

section \<open>One result for each segment\<close>

lemma scoreHit_alt:
  "scoreHit intents h m =
     (case map_of m (segmentId (hit_document h)) of
        None \<Rightarrow> AList.update (segmentId (hit_document h)) (resultOf intents h) m
      | Some existing \<Rightarrow>
          if boostedScore intents h > score existing
          then AList.update (segmentId (hit_document h)) (resultOf intents h) m
          else m)"
  by (simp add: scoreHit_def resultOf_def boostedScore_def Let_def split: option.splits)

lemma score_resultOf: "score (resultOf intents h) = boostedScore intents h"
  by (simp add: resultOf_def)

lemma scoredInv_step:
  assumes "scoredInv intents hs m"
  shows "scoredInv intents (hs @ [x]) (scoreHit intents x m)"
proof -
  let ?k = "segmentId (hit_document x)"
  from assms have d: "distinct (map fst m)"
    and b: "\<And>k r. map_of m k = Some r \<Longrightarrow> bestOf intents hs k r"
    and c: "\<And>h. h \<in> set hs \<Longrightarrow> map_of m (segmentId (hit_document h)) \<noteq> None"
    by (auto simp: scoredInv_def)
  have keep: "bestOf intents (hs @ [x]) k r" if "map_of m k = Some r" "k \<noteq> ?k" for k r
    using b[OF that(1)] that(2) by (auto simp: bestOf_def)
  show ?thesis
  proof (cases "map_of m ?k")
    case None
    then have nohit: "\<And>h. h \<in> set hs \<Longrightarrow> segmentId (hit_document h) \<noteq> ?k"
      using c by metis
    have new: "bestOf intents (hs @ [x]) ?k (resultOf intents x)"
      using nohit by (auto simp: bestOf_def)
    show ?thesis
      using None d new keep c
      by (auto simp: scoredInv_def scoreHit_alt distinct_update update_conv')
  next
    case (Some ex)
    from b[OF Some] obtain h where h: "h \<in> set hs" "segmentId (hit_document h) = ?k"
      "ex = resultOf intents h"
      "\<And>h'. h' \<in> set hs \<Longrightarrow> segmentId (hit_document h') = ?k \<Longrightarrow>
         boostedScore intents h' \<le> boostedScore intents h"
      by (auto simp: bestOf_def)
    show ?thesis
    proof (cases "boostedScore intents x > score ex")
      case True
      then have "boostedScore intents h < boostedScore intents x"
        using h(3) by (simp add: score_resultOf)
      then have new: "bestOf intents (hs @ [x]) ?k (resultOf intents x)"
        using h(4) by (fastforce simp: bestOf_def)
      show ?thesis
        using Some True d new keep c
        by (auto simp: scoredInv_def scoreHit_alt distinct_update update_conv')
    next
      case False
      then have le: "boostedScore intents x \<le> boostedScore intents h"
        using h(3) by (simp add: score_resultOf)
      have old: "bestOf intents (hs @ [x]) ?k ex"
        unfolding bestOf_def using h le by auto
      have all: "bestOf intents (hs @ [x]) k r" if "map_of m k = Some r" for k r
        using that keep old Some by (cases "k = ?k") auto
      show ?thesis
        using Some False d all c
        by (auto simp: scoredInv_def scoreHit_alt)
    qed
  qed
qed

lemma scoredInv_fold: "scoredInv intents hs (fold (scoreHit intents) hs [])"
proof (induction hs rule: rev_induct)
  case Nil
  show ?case by (simp add: scoredInv_def)
next
  case (snoc x xs)
  then show ?case by (simp add: scoredInv_step)
qed

lemma scored_entries:
  assumes "(k, r) \<in> set (fold (scoreHit intents) hs [])"
  shows "bestOf intents hs k r"
proof -
  have inv: "scoredInv intents hs (fold (scoreHit intents) hs [])" by (rule scoredInv_fold)
  then have "map_of (fold (scoreHit intents) hs []) k = Some r"
    using assms by (simp add: scoredInv_def)
  with inv show ?thesis by (simp add: scoredInv_def)
qed

lemma scored_ids:
  "map (\<lambda>r. seg_id (segment r)) (map snd (fold (scoreHit intents) hs [])) =
   map fst (fold (scoreHit intents) hs [])"
proof -
  have "seg_id (segment (snd p)) = fst p" if "p \<in> set (fold (scoreHit intents) hs [])" for p
  proof -
    obtain k r where p: "p = (k, r)" by (cases p)
    from scored_entries[of k r intents hs] that p have "bestOf intents hs k r" by simp
    then show ?thesis by (auto simp: p bestOf_def resultOf_def)
  qed
  then show ?thesis by simp
qed

lemma distinct_map_sort_key: "distinct (map g (sort_key f xs)) = distinct (map g xs)"
  by (simp add: distinct_map)

lemma distinct_map_slice0: "distinct (map g xs) \<Longrightarrow> distinct (map g (slice0 xs n))"
  by (simp add: slice0_def take_map[symmetric])

lemma set_slice0: "set (slice0 xs n) \<subseteq> set xs"
  by (simp add: slice0_def set_take_subset)

lemma ranked_distinct:
  "distinct (map (\<lambda>r. seg_id (segment r)) (rankedResults intents hits limit))"
proof -
  have "distinct (map fst (fold (scoreHit intents) hits []))"
    using scoredInv_fold[of intents hits] by (simp add: scoredInv_def)
  then have "distinct (map (\<lambda>r. seg_id (segment r)) (map snd (fold (scoreHit intents) hits [])))"
    by (simp only: scored_ids)
  then show ?thesis
    unfolding rankedResults_def
    by (intro distinct_map_slice0) (simp only: distinct_map_sort_key)
qed

lemma ranked_best:
  assumes "r \<in> set (rankedResults intents hits limit)"
  shows "bestOf intents hits (seg_id (segment r)) r"
proof -
  from assms have "r \<in> set (map snd (fold (scoreHit intents) hits []))"
    using set_slice0 by (fastforce simp: rankedResults_def)
  then obtain k where k: "(k, r) \<in> set (fold (scoreHit intents) hits [])" by auto
  then have b: "bestOf intents hits k r" by (rule scored_entries)
  then have "seg_id (segment r) = k" by (auto simp: bestOf_def resultOf_def)
  with b show ?thesis by simp
qed

lemma normalize_segments: "map segment (normalizeScores rs) = map segment rs"
  by (cases rs) (simp_all add: normalizeScores_def Let_def)

lemma sorted_hd_least: "sorted (map f xs) \<Longrightarrow> x \<in> set xs \<Longrightarrow> f (hd xs) \<le> f x"
  by (cases xs) auto

lemma ranked_sorted: "sorted (map (\<lambda>r. - score r) (rankedResults intents hits limit))"
  by (simp add: rankedResults_def slice0_def take_map[symmetric] sorted_wrt_take)

lemma ranked_top:
  assumes "r \<in> set (rankedResults intents hits limit)"
  shows "score r \<le> score (hd (rankedResults intents hits limit))"
  using sorted_hd_least[OF ranked_sorted assms] by simp

text \<open>Evaluations on concrete queries and hits.\<close>

lemma intents_who: "detectQuestionIntent ''who'' = [''author'']"
  by (simp add: detectQuestionIntent_def QUESTION_PATTERNS_def regexTest_def wordBoundaryAt_def
      literalAt_def isWordChar_def canonicalize_def calculateHeuristicBoost_def indicatorsOf_def
      ANSWER_INDICATORS_def includes_str_def indexOf_def toLowerCase_def toLowerChar_def
      rankedResults_def scoreHit_def slice0_def passageHit_def Let_def)

lemma intents_x: "detectQuestionIntent ''x'' = [''general'']"
  by (simp add: detectQuestionIntent_def QUESTION_PATTERNS_def regexTest_def wordBoundaryAt_def
      literalAt_def isWordChar_def canonicalize_def calculateHeuristicBoost_def indicatorsOf_def
      ANSWER_INDICATORS_def includes_str_def indexOf_def toLowerCase_def toLowerChar_def
      rankedResults_def scoreHit_def slice0_def passageHit_def Let_def)

lemma ranked_eval:
  "rankedResults [''author'']
     [passageHit ''s1'' ''a b'' ''one'' (1 / 2), passageHit ''s1'' ''c d'' ''one'' (7 / 10),
      passageHit ''s2'' ''he says'' ''two'' (3 / 5)] 10 =
   [\<lparr> segment = \<lparr> seg_id = ''s1'', seg_text = ''one'', seg_start = 0, seg_end = 5 \<rparr>, score = 7 / 10 \<rparr>,
    \<lparr> segment = \<lparr> seg_id = ''s2'', seg_text = ''two'', seg_start = 0, seg_end = 5 \<rparr>, score = 7 / 10 \<rparr>]"
  by (simp add: detectQuestionIntent_def QUESTION_PATTERNS_def regexTest_def wordBoundaryAt_def
      literalAt_def isWordChar_def canonicalize_def calculateHeuristicBoost_def indicatorsOf_def
      ANSWER_INDICATORS_def includes_str_def indexOf_def toLowerCase_def toLowerChar_def
      rankedResults_def scoreHit_def slice0_def passageHit_def Let_def)

text \<open>
  Claim C2: when the search posts results, no two of them have the same segment id; the
  results are the normalised form of a list \<open>raw\<close> with the same segments in the same
  order, and every entry of \<open>raw\<close> is built from one hit: it has that hit's segment id,
  full segment text (not the chunk text), start and end, and that hit's boosted score,
  which no other hit of the same segment exceeds.
\<close>

theorem search_results_one_per_segment:
  assumes "embedderPipeline st = Some embedder" and "oramaDb st = Some db"
    and "embedder query = Inr v" and "search db (hybridQuery query v) = Inr hits"
    and "raw = rankedResults (detectQuestionIntent query) hits (case limit of None \<Rightarrow> 10 | Some l \<Rightarrow> l)"
  shows "posted (semanticSearch search st query limit) = SearchResultsMsg (normalizeScores raw) query
     \<and> distinct (map (\<lambda>r. seg_id (segment r)) (normalizeScores raw))
     \<and> map segment (normalizeScores raw) = map segment raw
     \<and> (\<forall>r \<in> set raw. \<exists>h \<in> set hits.
            r = resultOf (detectQuestionIntent query) h \<and>
            (\<forall>h' \<in> set hits. segmentId (hit_document h') = segmentId (hit_document h) \<longrightarrow>
               boostedScore (detectQuestionIntent query) h' \<le> boostedScore (detectQuestionIntent query) h))"
proof -
  have p: "posted (semanticSearch search st query limit) = SearchResultsMsg (normalizeScores raw) query"
    using semanticSearch_ready[of st embedder db query v search hits limit] assms by simp
  have "map (\<lambda>r. seg_id (segment r)) (normalizeScores raw) = map seg_id (map segment (normalizeScores raw))"
    by simp
  also have "\<dots> = map (\<lambda>r. seg_id (segment r)) raw"
    by (simp only: normalize_segments) simp
  finally have d: "distinct (map (\<lambda>r. seg_id (segment r)) (normalizeScores raw))"
    using ranked_distinct[of "detectQuestionIntent query" hits] assms(5) by simp
  have b: "\<exists>h \<in> set hits. r = resultOf (detectQuestionIntent query) h \<and>
            (\<forall>h' \<in> set hits. segmentId (hit_document h') = segmentId (hit_document h) \<longrightarrow>
               boostedScore (detectQuestionIntent query) h' \<le> boostedScore (detectQuestionIntent query) h)"
    if "r \<in> set raw" for r
  proof -
    have "r \<in> set (rankedResults (detectQuestionIntent query) hits
                      (case limit of None \<Rightarrow> 10 | Some l \<Rightarrow> l))"
      using that by (simp only: assms(5))
    then have "bestOf (detectQuestionIntent query) hits (seg_id (segment r)) r"
      by (rule ranked_best)
    then obtain h where h: "h \<in> set hits" "segmentId (hit_document h) = seg_id (segment r)"
      "r = resultOf (detectQuestionIntent query) h"
      "\<forall>h' \<in> set hits. segmentId (hit_document h') = seg_id (segment r) \<longrightarrow>
         boostedScore (detectQuestionIntent query) h' \<le> boostedScore (detectQuestionIntent query) h"
      unfolding bestOf_def by auto
    from h(4) have "\<forall>h' \<in> set hits. segmentId (hit_document h') = segmentId (hit_document h) \<longrightarrow>
         boostedScore (detectQuestionIntent query) h' \<le> boostedScore (detectQuestionIntent query) h"
      by (simp only: h(2))
    with h(1,3) show ?thesis by (intro bexI[of _ h] conjI)
  qed
  show ?thesis
  proof (intro conjI ballI)
    show "posted (semanticSearch search st query limit) = SearchResultsMsg (normalizeScores raw) query"
      by (rule p)
    show "distinct (map (\<lambda>r. seg_id (segment r)) (normalizeScores raw))"
      by (rule d)
    show "map segment (normalizeScores raw) = map segment raw"
      by (rule normalize_segments)
  next
    fix r assume "r \<in> set raw"
    then show "\<exists>h \<in> set hits. r = resultOf (detectQuestionIntent query) h \<and>
            (\<forall>h' \<in> set hits. segmentId (hit_document h') = segmentId (hit_document h) \<longrightarrow>
               boostedScore (detectQuestionIntent query) h' \<le> boostedScore (detectQuestionIntent query) h)"
      by (rule b)
  qed
qed

theorem search_results_one_per_segment_witness:
  "embedderPipeline readyState = Some fixedEmbedder \<and> oramaDb readyState = Some () \<and>
   fixedEmbedder ''who'' = Inr unitVector \<and>
   engineReturning [passageHit ''s1'' ''a b'' ''one'' (1 / 2), passageHit ''s1'' ''c d'' ''one'' (7 / 10),
      passageHit ''s2'' ''he says'' ''two'' (3 / 5)] () (hybridQuery ''who'' unitVector)
     = Inr [passageHit ''s1'' ''a b'' ''one'' (1 / 2), passageHit ''s1'' ''c d'' ''one'' (7 / 10),
            passageHit ''s2'' ''he says'' ''two'' (3 / 5)] \<and>
   posted (semanticSearch (engineReturning
       [passageHit ''s1'' ''a b'' ''one'' (1 / 2), passageHit ''s1'' ''c d'' ''one'' (7 / 10),
        passageHit ''s2'' ''he says'' ''two'' (3 / 5)]) readyState ''who'' None)
     = SearchResultsMsg (normalizeScores
         [\<lparr> segment = \<lparr> seg_id = ''s1'', seg_text = ''one'', seg_start = 0, seg_end = 5 \<rparr>, score = 7 / 10 \<rparr>,
          \<lparr> segment = \<lparr> seg_id = ''s2'', seg_text = ''two'', seg_start = 0, seg_end = 5 \<rparr>, score = 7 / 10 \<rparr>])
        ''who'' \<and>
   distinct (map (\<lambda>r. seg_id (segment r)) (normalizeScores
         [\<lparr> segment = \<lparr> seg_id = ''s1'', seg_text = ''one'', seg_start = 0, seg_end = 5 \<rparr>, score = 7 / 10 \<rparr>,
          \<lparr> segment = \<lparr> seg_id = ''s2'', seg_text = ''two'', seg_start = 0, seg_end = 5 \<rparr>, score = 7 / 10 \<rparr>]))"
proof -
  let ?hits = "[passageHit ''s1'' ''a b'' ''one'' (1 / 2), passageHit ''s1'' ''c d'' ''one'' (7 / 10),
      passageHit ''s2'' ''he says'' ''two'' (3 / 5)]"
  let ?raw = "[\<lparr> segment = \<lparr> seg_id = ''s1'', seg_text = ''one'', seg_start = 0, seg_end = 5 \<rparr>, score = 7 / 10 \<rparr>,
          \<lparr> segment = \<lparr> seg_id = ''s2'', seg_text = ''two'', seg_start = 0, seg_end = 5 \<rparr>, score = (7 / 10 :: real) \<rparr>]"
  have a: "embedderPipeline readyState = Some fixedEmbedder" by (simp add: readyState_def)
  have b: "oramaDb readyState = Some ()" by (simp add: readyState_def)
  have c: "fixedEmbedder ''who'' = Inr unitVector" by (simp add: fixedEmbedder_def)
  have d: "engineReturning ?hits () (hybridQuery ''who'' unitVector) = Inr ?hits"
    by (simp add: engineReturning_def)
  have e: "?raw = rankedResults (detectQuestionIntent ''who'') ?hits (case None of None \<Rightarrow> 10 | Some l \<Rightarrow> l)"
    by (simp add: intents_who ranked_eval)
  note r = search_results_one_per_segment[of readyState fixedEmbedder "()" "''who''" unitVector
        "engineReturning ?hits" ?hits ?raw None, OF a b c d e]
  note r1 = conjunct1[OF r]
  note r2 = conjunct1[OF conjunct2[OF r]]
  from a b c d r1 r2 show ?thesis
    by (intro conjI)
qed

section \<open>Normalisation of the scores\<close>

text \<open>
  Claim C1 says that the posted scores of a non-empty result list are below 1 and, for
  non-negative scores of the engine, at least 0. When the top score before the
  normalisation is 0 the divisor is 0: for one hit of score 0 without boost the posted
  score is \<open>0 / 0\<close>, NaN, which is neither below 1 nor at least 0.
\<close>

theorem zero_top_score_posts_nan:
  "posted (semanticSearch (engineReturning [passageHit ''s1'' ''ok'' ''ok then'' 0]) readyState ''x'' None)
     = SearchResultsMsg
         [\<lparr> segment = \<lparr> seg_id = ''s1'', seg_text = ''ok then'', seg_start = 0, seg_end = 5 \<rparr>,
            score = NaN \<rparr>] ''x''
   \<and> \<not> js_lt NaN (Num 1) \<and> \<not> js_le (Num 0) NaN"
  by (simp add: semanticSearch_def readyState_def fixedEmbedder_def engineReturning_def intents_x
      normalizeScores_def js_div_def calculateHeuristicBoost_def indicatorsOf_def
      ANSWER_INDICATORS_def includes_str_def indexOf_def toLowerCase_def toLowerChar_def
      rankedResults_def scoreHit_def slice0_def passageHit_def Let_def)

section \<open>Rounding to the nearest double\<close>

text \<open>The rounded value of a real in the range of the normal doubles is within the
  relative error \<open>2^-53\<close>, and the rounding is computed from an exponent and an integer
  significand that bracket the real.\<close>

lemma roundHalfEven_error: "\<bar>of_int (roundHalfEven y) - y\<bar> \<le> 1 / 2"
proof -
  define f where "f = \<lfloor>y\<rfloor>"
  have fl: "of_int f \<le> y" "y < of_int f + 1" unfolding f_def by linarith+
  have "roundHalfEven y = f \<and> y - of_int f \<le> 1 / 2 \<or>
        roundHalfEven y = f + 1 \<and> 1 / 2 \<le> y - of_int f"
    unfolding roundHalfEven_def Let_def f_def[symmetric] by auto
  then show ?thesis
  proof
    assume "roundHalfEven y = f \<and> y - of_int f \<le> 1 / 2"
    with fl show ?thesis by (simp add: abs_if)
  next
    assume "roundHalfEven y = f + 1 \<and> 1 / 2 \<le> y - of_int f"
    with fl show ?thesis by (simp add: abs_if)
  qed
qed

lemma roundHalfEven_eqI:
  assumes "\<bar>y - of_int m\<bar> < 1 / 2"
  shows "roundHalfEven y = m"
proof (cases "of_int m \<le> y")
  case True
  with assms have "\<lfloor>y\<rfloor> = m" by (intro floor_unique) (auto simp: abs_if)
  with assms True show ?thesis
    unfolding roundHalfEven_def Let_def by (auto simp: abs_if)
next
  case False
  with assms have f: "\<lfloor>y\<rfloor> = m - 1" by (intro floor_unique) (auto simp: abs_if)
  with assms False show ?thesis
    unfolding roundHalfEven_def Let_def by (auto simp: abs_if)
qed

lemma roundHalfEven_nonneg: "0 \<le> y \<Longrightarrow> 0 \<le> roundHalfEven y"
  unfolding roundHalfEven_def Let_def by (auto simp: not_less)

lemma halvings_bracket:
  "1 \<le> a \<Longrightarrow> a < 2 ^ Suc n \<Longrightarrow> 2 ^ halvings n a \<le> a \<and> a < 2 ^ Suc (halvings n a)"
proof (induction n arbitrary: a)
  case 0
  then show ?case by (subst (1 2) halvings.simps) simp
next
  case (Suc n)
  show ?case
  proof (cases "a < 2")
    case True
    with Suc.prems show ?thesis by (subst (1 2) halvings.simps) simp
  next
    case False
    then have h: "halvings (Suc n) a = Suc (halvings n (a / 2))"
      by (subst halvings.simps) simp
    have "1 \<le> a / 2" "a / 2 < 2 ^ Suc n" using False Suc.prems by simp_all
    then have "2 ^ halvings n (a / 2) \<le> a / 2 \<and> a / 2 < 2 ^ Suc (halvings n (a / 2))"
      by (rule Suc.IH)
    then show ?thesis by (simp add: h)
  qed
qed

lemma doublings_le: "doublings n a \<le> n"
proof (induction n arbitrary: a)
  case 0
  show ?case by (subst doublings.simps) simp
next
  case (Suc n)
  from Suc[of "a * 2"] show ?case by (subst doublings.simps) simp
qed

lemma doublings_bracket:
  "0 < a \<Longrightarrow> a < 1 \<Longrightarrow> 1 \<le> a * 2 ^ n \<Longrightarrow>
   1 \<le> a * 2 ^ doublings n a \<and> a * 2 ^ doublings n a < 2 \<and> 0 < doublings n a"
proof (induction n arbitrary: a)
  case 0
  then show ?case by simp
next
  case (Suc n)
  have d: "doublings (Suc n) a = Suc (doublings n (a * 2))"
    using Suc.prems(2) by (subst doublings.simps) simp
  show ?case
  proof (cases "1 \<le> a * 2")
    case True
    then have "doublings n (a * 2) = 0" by (subst doublings.simps) simp
    with True Suc.prems show ?thesis by (simp add: d)
  next
    case False
    then have "1 \<le> a * 2 * 2 ^ doublings n (a * 2) \<and> a * 2 * 2 ^ doublings n (a * 2) < 2
               \<and> 0 < doublings n (a * 2)"
      using Suc.prems by (intro Suc.IH) (simp_all add: mult.assoc)
    then show ?thesis by (simp add: d mult.assoc)
  qed
qed

lemma doublings_small: "0 < a \<Longrightarrow> a * 2 ^ n < 1 \<Longrightarrow> doublings n a = n"
proof (induction n arbitrary: a)
  case 0
  show ?case by (subst doublings.simps) simp
next
  case (Suc n)
  have "(1::real) \<le> 2 ^ Suc n" by (rule one_le_power) simp
  then have "a * 1 \<le> a * 2 ^ Suc n" using Suc.prems(1) by (intro mult_left_mono) simp_all
  then have "a < 1" using Suc.prems(2) by simp
  then have "doublings (Suc n) a = Suc (doublings n (a * 2))"
    by (subst doublings.simps) simp
  moreover have "doublings n (a * 2) = n"
    using Suc.prems by (intro Suc.IH) (simp_all add: mult.assoc)
  ultimately show ?case by simp
qed

lemma exponentOf_normal:
  assumes "2 powi (- 1022) \<le> a" and "a < 2 powi 1025"
  shows "2 powi exponentOf a \<le> a \<and> a < 2 powi (exponentOf a + 1) \<and> - 1022 \<le> exponentOf a"
proof (cases "1 \<le> a")
  case True
  have "a < 2 ^ Suc 1024" using assms(2) by simp
  with True have "2 ^ halvings 1024 a \<le> a \<and> a < 2 ^ Suc (halvings 1024 a)"
    by (rule halvings_bracket)
  moreover have "exponentOf a = int (halvings 1024 a)" using True by (simp add: exponentOf_def)
  moreover have "int (halvings 1024 a) + 1 = int (Suc (halvings 1024 a))" by simp
  ultimately show ?thesis by (simp only: power_int_of_nat) simp
next
  case False
  have pos: "0 < a" using assms(1) by (rule less_le_trans[rotated]) simp
  have "1 \<le> a * 2 ^ 1022"
    using assms(1) by (simp add: power_int_minus_divide field_simps)
  with pos False have b: "1 \<le> a * 2 ^ doublings 1022 a \<and> a * 2 ^ doublings 1022 a < 2"
    using doublings_bracket[of a 1022] by simp
  have le: "doublings 1022 a \<le> 1022" by (rule doublings_le)
  have e: "exponentOf a = - int (doublings 1022 a)" using False by (simp add: exponentOf_def)
  have p1: "(2::real) powi (- int (doublings 1022 a)) = 1 / 2 ^ doublings 1022 a"
    by (simp add: power_int_minus_divide)
  have "(2::real) powi (- int (doublings 1022 a) + 1) = 2 powi (- int (doublings 1022 a)) * 2 powi 1"
    by (rule power_int_add) simp
  then have p2: "(2::real) powi (- int (doublings 1022 a) + 1) = 2 / 2 ^ doublings 1022 a"
    by (simp only: p1) simp
  show ?thesis
    unfolding e p1 p2 using b le by (simp add: field_simps)
qed

lemma pow2_less_imp: "(2::real) powi m < 2 powi n \<Longrightarrow> m < n"
proof (rule ccontr)
  assume a: "(2::real) powi m < 2 powi n" and "\<not> m < n"
  then have "n \<le> m" by simp
  then have "(2::real) powi n \<le> 2 powi m" by (intro power_int_increasing) simp_all
  with a show False by simp
qed

lemma exponentOf_eqI:
  assumes "2 powi e \<le> a" and "a < 2 powi (e + 1)" and "- 1022 \<le> e" and "e \<le> 1023"
  shows "exponentOf a = e"
proof -
  have "(2::real) powi (- 1022) \<le> 2 powi e" using assms(3) by (intro power_int_increasing) simp_all
  then have lo: "2 powi (- 1022) \<le> a" using assms(1) by simp
  have "(2::real) powi (e + 1) \<le> 2 powi 1025" using assms(4) by (intro power_int_increasing) simp_all
  then have hi: "a < 2 powi 1025" using assms(2) by simp
  from exponentOf_normal[OF lo hi]
  have b: "2 powi exponentOf a \<le> a" "a < 2 powi (exponentOf a + 1)" by simp_all
  have "(2::real) powi exponentOf a < 2 powi (e + 1)" using b(1) assms(2) by simp
  then have "exponentOf a < e + 1" by (rule pow2_less_imp)
  moreover have "(2::real) powi e < 2 powi (exponentOf a + 1)" using b(2) assms(1) by simp
  then have "e < exponentOf a + 1" by (rule pow2_less_imp)
  ultimately show ?thesis by simp
qed


lemma roundDouble_pos:
  assumes "0 < x"
  shows "roundDouble x =
     (if overflowLimit \<le> of_int (roundHalfEven (x / 2 powi (exponentOf x - 52))) * 2 powi (exponentOf x - 52)
      then PosInfinity
      else Num (of_int (roundHalfEven (x / 2 powi (exponentOf x - 52))) * 2 powi (exponentOf x - 52)))"
  using assms by (simp add: roundDouble_def Let_def)

lemma quantum_error:
  assumes "0 < q"
  shows "\<bar>of_int (roundHalfEven (x / q)) * q - x\<bar> \<le> q / 2"
proof -
  have "of_int (roundHalfEven (x / q)) * q - x = (of_int (roundHalfEven (x / q)) - x / q) * q"
    using assms by (simp add: field_simps)
  then have "\<bar>of_int (roundHalfEven (x / q)) * q - x\<bar> = \<bar>of_int (roundHalfEven (x / q)) - x / q\<bar> * q"
    using assms by (simp only: abs_mult)
  also have "\<dots> \<le> (1 / 2) * q"
    using assms by (intro mult_right_mono roundHalfEven_error) simp
  finally show ?thesis by simp
qed

lemma roundDouble_normal:
  assumes "2 powi (- 1022) \<le> a" and "a \<le> 3 * 2 powi 1022"
  shows "\<exists>v. roundDouble a = Num v \<and> \<bar>v - a\<bar> \<le> a / 2 ^ 53"
proof -
  let ?e = "exponentOf a"
  let ?q = "(2::real) powi (?e - 52)"
  let ?v = "of_int (roundHalfEven (a / ?q)) * ?q"
  have pos: "0 < a" using assms(1) by (rule less_le_trans[rotated]) simp
  have "(3::real) * 2 powi 1022 < 2 powi 1025" by simp
  with assms(2) have hi: "a < 2 powi 1025" by simp
  from exponentOf_normal[OF assms(1) hi] have b: "2 powi ?e \<le> a" by simp
  have q: "?q = 2 powi ?e / 2 ^ 52" by (simp add: power_int_diff)
  have qpos: "0 < ?q" by simp
  have "?q \<le> a / 2 ^ 52" unfolding q using b by (simp add: divide_right_mono)
  then have half: "?q / 2 \<le> a / 2 ^ 53" by simp
  have err: "\<bar>?v - a\<bar> \<le> ?q / 2" using qpos by (rule quantum_error)
  with half have bound: "\<bar>?v - a\<bar> \<le> a / 2 ^ 53" by simp
  have "?v - a \<le> a / 2 ^ 53" by (rule order_trans[OF abs_ge_self bound])
  then have "?v \<le> a + a / 2 ^ 53" by linarith
  also have "\<dots> \<le> 3 * 2 powi 1022 + 3 * 2 powi 1022 / 2 ^ 53"
    using assms(2) by (intro add_mono divide_right_mono) simp_all
  also have "\<dots> < overflowLimit" by (simp add: overflowLimit_def)
  finally have "\<not> overflowLimit \<le> ?v" by simp
  then have "roundDouble a = Num ?v" by (simp only: roundDouble_pos[OF pos] if_False)
  with bound show ?thesis by blast
qed

lemma exponentOf_below_one:
  assumes "0 < a" and "a < 1"
  shows "exponentOf a \<le> - 1"
proof -
  have "doublings 1022 a = Suc (doublings (1022 - 1) (a * 2))"
    using assms(2) by (subst doublings.simps) simp
  then show ?thesis using assms(2) by (simp add: exponentOf_def)
qed

lemma roundDouble_below_one:
  assumes "0 < a" and "a < 1"
  shows "\<exists>v. roundDouble a = Num v \<and> \<bar>v - a\<bar> \<le> 1 / 2 ^ 54"
proof -
  let ?e = "exponentOf a"
  let ?q = "(2::real) powi (?e - 52)"
  let ?v = "of_int (roundHalfEven (a / ?q)) * ?q"
  have "?e - 52 \<le> - 53" using exponentOf_below_one[OF assms] by simp
  then have "?q \<le> 2 powi (- 53)" by (intro power_int_increasing) simp_all
  then have half: "?q / 2 \<le> 1 / 2 ^ 54" by (simp add: power_int_minus_divide)
  have "0 < ?q" by simp
  then have "\<bar>?v - a\<bar> \<le> ?q / 2" by (rule quantum_error)
  with half have bound: "\<bar>?v - a\<bar> \<le> 1 / 2 ^ 54" by simp
  have "?v - a \<le> 1 / 2 ^ 54" by (rule order_trans[OF abs_ge_self bound])
  then have "?v \<le> a + 1 / 2 ^ 54" by linarith
  also have "\<dots> < 2" using assms(2) by simp
  also have "(2::real) \<le> overflowLimit" by (simp add: overflowLimit_def)
  finally have "\<not> overflowLimit \<le> ?v" by simp
  then have "roundDouble a = Num ?v" by (simp only: roundDouble_pos[OF assms(1)] if_False)
  with bound show ?thesis by blast
qed

lemma roundDouble_nonpos:
  assumes "a \<le> 0"
  shows "js_le (roundDouble a) (Num 0)"
proof (cases "a = 0")
  case True
  then show ?thesis by (simp add: roundDouble_def)
next
  case False
  let ?q = "(2::real) powi (exponentOf \<bar>a\<bar> - 52)"
  have "0 \<le> \<bar>a\<bar> / ?q" by simp
  then have "0 \<le> roundHalfEven (\<bar>a\<bar> / ?q)" by (rule roundHalfEven_nonneg)
  then have "0 \<le> of_int (roundHalfEven (\<bar>a\<bar> / ?q)) * ?q" by simp
  with False assms show ?thesis by (simp add: roundDouble_def Let_def)
qed

lemma roundDouble_evalI:
  assumes "2 powi e \<le> x" and "x < 2 powi (e + 1)" and "- 1022 \<le> e" and "e \<le> 1022"
    and "\<bar>x / 2 powi (e - 52) - of_int m\<bar> < 1 / 2"
  shows "roundDouble x = Num (of_int m * 2 powi (e - 52))"
proof -
  have pos: "0 < x" using assms(1) by (rule less_le_trans[rotated]) simp
  have e: "exponentOf x = e" using assms(1-4) by (intro exponentOf_eqI) simp_all
  have m: "roundHalfEven (x / 2 powi (e - 52)) = m" using assms(5) by (rule roundHalfEven_eqI)
  have "x / 2 powi (e - 52) < 2 powi (e + 1) / 2 powi (e - 52)"
    using assms(2) by (intro divide_strict_right_mono) simp_all
  also have "\<dots> = 2 powi ((e + 1) - (e - 52))" by (rule power_int_diff[symmetric]) simp
  also have "\<dots> = 2 ^ 53" by simp
  finally have lt: "x / 2 powi (e - 52) < 2 ^ 53" .
  have "real_of_int m - x / 2 powi (e - 52) \<le> \<bar>x / 2 powi (e - 52) - of_int m\<bar>"
    by linarith
  with assms(5) lt have "real_of_int m < real_of_int (2 ^ 53 + 1)" by simp
  then have "m < 2 ^ 53 + 1" by (simp only: of_int_less_iff)
  then have "m \<le> 2 ^ 53" by simp
  then have "real_of_int m \<le> real_of_int (2 ^ 53)" by (simp only: of_int_le_iff)
  then have "real_of_int m \<le> 2 ^ 53" by simp
  then have "real_of_int m * 2 powi (e - 52) \<le> 2 ^ 53 * 2 powi (e - 52)"
    by (intro mult_right_mono) simp_all
  also have "\<dots> = 2 powi 53 * 2 powi (e - 52)" by simp
  also have "\<dots> = 2 powi (53 + (e - 52))" by (rule power_int_add[symmetric]) simp
  also have "\<dots> \<le> 2 powi 1023" using assms(4) by (intro power_int_increasing) simp_all
  also have "\<dots> < overflowLimit" by (simp add: overflowLimit_def)
  finally have "\<not> overflowLimit \<le> real_of_int m * 2 powi (e - 52)" by simp
  then show ?thesis by (simp only: roundDouble_pos[OF pos] e m if_False)
qed

lemma roundDouble_subnormalI:
  assumes "0 < x" and "x < 2 powi (- 1022)" and "\<bar>x / 2 powi (- 1074) - of_int m\<bar> < 1 / 2"
  shows "roundDouble x = Num (of_int m * 2 powi (- 1074))"
proof -
  have "x * 2 ^ 1022 < 1" using assms(2) by (simp add: power_int_minus_divide field_simps)
  with assms(1) have d: "doublings 1022 x = 1022" by (rule doublings_small)
  have "(1::real) \<le> 2 ^ 1022" by (rule one_le_power) simp
  then have "x * 1 \<le> x * 2 ^ 1022" using assms(1) by (intro mult_left_mono) simp_all
  with \<open>x * 2 ^ 1022 < 1\<close> have "x < 1" by simp
  then have e: "exponentOf x = - 1022" by (simp add: exponentOf_def d)
  have m: "roundHalfEven (x / 2 powi (- 1022 - 52)) = m" using assms(3) by (intro roundHalfEven_eqI) simp
  have "x / 2 powi (- 1074) < 2 powi (- 1022) / 2 powi (- 1074)"
    using assms(2) by (intro divide_strict_right_mono) simp_all
  also have "\<dots> = 2 powi ((- 1022) - (- 1074))" by (rule power_int_diff[symmetric]) simp
  also have "\<dots> = 2 ^ 52" by simp
  finally have lt: "x / 2 powi (- 1074) < 2 ^ 52" .
  have "real_of_int m - x / 2 powi (- 1074) \<le> \<bar>x / 2 powi (- 1074) - of_int m\<bar>"
    by linarith
  with assms(3) lt have "real_of_int m < real_of_int (2 ^ 52 + 1)" by simp
  then have "m < 2 ^ 52 + 1" by (simp only: of_int_less_iff)
  then have "m \<le> 2 ^ 52" by simp
  then have "real_of_int m \<le> real_of_int (2 ^ 52)" by (simp only: of_int_le_iff)
  then have "real_of_int m \<le> 2 ^ 52" by simp
  then have "real_of_int m * 2 powi (- 1074) \<le> 2 ^ 52 * 2 powi (- 1074)"
    by (intro mult_right_mono) simp_all
  also have "\<dots> = 2 powi 52 * 2 powi (- 1074)" by simp
  also have "\<dots> = 2 powi (52 + (- 1074))" by (rule power_int_add[symmetric]) simp
  also have "\<dots> \<le> 2 powi 0" by (intro power_int_increasing) simp_all
  also have "\<dots> < overflowLimit" by (simp add: overflowLimit_def)
  finally have "\<not> overflowLimit \<le> real_of_int m * 2 powi (- 1022 - 52)" by simp
  then have "roundDouble x = Num (of_int m * 2 powi (- 1022 - 52))"
    by (simp only: roundDouble_pos[OF assms(1)] e m if_False)
  then show ?thesis by simp
qed

lemma double_one: "roundDouble 1 = Num 1"
proof -
  have "roundDouble 1 = Num (of_int 4503599627370496 * 2 powi (0 - 52))"
    by (rule roundDouble_evalI) simp_all
  then show ?thesis by simp
qed

text \<open>The doubles of the literals, and the operations on the double 0.92.\<close>

lemma double_11_10: "roundDouble (11 / 10) = Num (2476979795053773 / 2251799813685248)"
proof -
  have "roundDouble (11 / 10) = Num (of_int 4953959590107546 * 2 powi (0 - 52))"
    by (rule roundDouble_evalI) simp_all
  then show ?thesis by simp
qed

lemma doubleOf_11_10: "doubleOf (11 / 10) = 2476979795053773 / 2251799813685248"
  by (simp add: doubleOf_def double_11_10)

lemma double_99_100: "roundDouble (99 / 100) = Num (4458563631096791 / 4503599627370496)"
proof -
  have "roundDouble (99 / 100) = Num (of_int 8917127262193582 * 2 powi (- 1 - 52))"
    by (rule roundDouble_evalI) simp_all
  then show ?thesis by simp
qed

lemma double_23_25: "roundDouble (23 / 25) = Num (8286623314361713 / 9007199254740992)"
proof -
  have "roundDouble (23 / 25) = Num (of_int 8286623314361713 * 2 powi (- 1 - 52))"
    by (rule roundDouble_evalI) simp_all
  then show ?thesis by simp
qed

lemma doubleOf_23_25: "doubleOf (23 / 25) = 8286623314361713 / 9007199254740992"
  by (simp add: doubleOf_def double_23_25)

lemma double_10_11: "roundDouble (10 / 11) = Num (8188362958855447 / 9007199254740992)"
proof -
  have "roundDouble (10 / 11) = Num (of_int 8188362958855447 * 2 powi (- 1 - 52))"
    by (rule roundDouble_evalI) simp_all
  then show ?thesis by simp
qed

lemma divisor_23_25:
  "roundDouble (8286623314361713 / 9007199254740992 * (2476979795053773 / 2251799813685248))
   = Num (4557642822898943 / 4503599627370496)"
proof -
  have "roundDouble (8286623314361713 / 9007199254740992 * (2476979795053773 / 2251799813685248))
        = Num (of_int 4557642822898943 * 2 powi (0 - 52))"
    by (rule roundDouble_evalI) simp_all
  then show ?thesis by simp
qed

lemma quotient_23_25:
  "roundDouble (8286623314361713 / 9007199254740992 / (4557642822898943 / 4503599627370496))
   = Num (4094181479427723 / 4503599627370496)"
proof -
  have "roundDouble (8286623314361713 / 9007199254740992 / (4557642822898943 / 4503599627370496))
        = Num (of_int 8188362958855446 * 2 powi (- 1 - 52))"
    by (rule roundDouble_evalI) simp_all
  then show ?thesis by simp
qed

lemma js_divide_Num: "y \<noteq> 0 \<Longrightarrow> js_divide x (Num y) = roundDouble (x / y)"
  by simp

lemma double_1_over_11_10:
  "js_divide 1 (roundDouble (11 / 10)) = Num (8188362958855447 / 9007199254740992)"
proof -
  have "roundDouble (1 / (2476979795053773 / 2251799813685248))
        = Num (of_int 8188362958855447 * 2 powi (- 1 - 52))"
    by (rule roundDouble_evalI) simp_all
  then have "roundDouble (1 / (2476979795053773 / 2251799813685248))
        = Num (8188362958855447 / 9007199254740992)" by simp
  moreover have "js_divide 1 (Num (2476979795053773 / 2251799813685248))
        = roundDouble (1 / (2476979795053773 / 2251799813685248))"
    by (rule js_divide_Num) simp
  ultimately show ?thesis by (simp only: double_11_10)
qed

lemma js_le_Num_trans: "js_le a (Num u) \<Longrightarrow> u \<le> w \<Longrightarrow> js_le a (Num w)"
  by (cases a) simp_all

lemma js_min_below: "js_le a (Num u) \<Longrightarrow> u \<le> d \<Longrightarrow> js_min a (Num d) = a"
  by (cases a) simp_all

section \<open>Normalisation in double arithmetic\<close>

text \<open>
  Claim C10 says that for a positive top score every posted score is the raw score
  divided by 1.1 times the top score, the cap never being the binding value, and that
  the top posted score is always exactly 1/1.1. For one result whose raw score is the
  double 0.92, the product \<open>0.92 * 1.1\<close> rounds to \<open>4557642822898943 / 2^52\<close> and the
  quotient to \<open>4094181479427723 / 2^52\<close>, which prints as 0.909090909090909: it is not
  the real 10/11, nor the double nearest to it, nor the value of \<open>1 / 1.1\<close> in double
  arithmetic, which is 0.9090909090909091.
\<close>

theorem top_score_092_counterexample:
  "normalizeScoresDouble
     [\<lparr> segment = \<lparr> seg_id = ''s1'', seg_text = ''one'', seg_start = 0, seg_end = 5 \<rparr>,
        score = doubleOf (23 / 25) \<rparr>]
   = [\<lparr> segment = \<lparr> seg_id = ''s1'', seg_text = ''one'', seg_start = 0, seg_end = 5 \<rparr>,
        score = Num (4094181479427723 / 4503599627370496) \<rparr>]
   \<and> (4094181479427723 / 4503599627370496 :: real) \<noteq> 10 / 11
   \<and> Num (4094181479427723 / 4503599627370496) \<noteq> roundDouble (10 / 11)
   \<and> Num (4094181479427723 / 4503599627370496) \<noteq> js_divide 1 (roundDouble (11 / 10))"
proof -
  have e1: "roundDouble (doubleOf (23 / 25) * doubleOf (11 / 10)) = Num (4557642822898943 / 4503599627370496)"
    by (simp only: doubleOf_23_25 doubleOf_11_10 divisor_23_25)
  have "js_divide (doubleOf (23 / 25)) (Num (4557642822898943 / 4503599627370496))
        = roundDouble (doubleOf (23 / 25) / (4557642822898943 / 4503599627370496))"
    by (rule js_divide_Num) simp
  then have e2: "js_divide (doubleOf (23 / 25)) (Num (4557642822898943 / 4503599627370496))
        = Num (4094181479427723 / 4503599627370496)"
    by (simp only: doubleOf_23_25 quotient_23_25)
  have e3: "js_min (Num (4094181479427723 / 4503599627370496)) (roundDouble (99 / 100))
        = Num (4094181479427723 / 4503599627370496)"
    by (simp add: double_99_100)
  have "normalizeScoresDouble
     [\<lparr> segment = \<lparr> seg_id = ''s1'', seg_text = ''one'', seg_start = 0, seg_end = 5 \<rparr>,
        score = doubleOf (23 / 25) \<rparr>]
   = [\<lparr> segment = \<lparr> seg_id = ''s1'', seg_text = ''one'', seg_start = 0, seg_end = 5 \<rparr>,
        score = js_min (js_divide (doubleOf (23 / 25))
                          (roundDouble (doubleOf (23 / 25) * doubleOf (11 / 10))))
                       (roundDouble (99 / 100)) \<rparr>]"
    by (simp add: normalizeScoresDouble_def Let_def)
  then have "normalizeScoresDouble
     [\<lparr> segment = \<lparr> seg_id = ''s1'', seg_text = ''one'', seg_start = 0, seg_end = 5 \<rparr>,
        score = doubleOf (23 / 25) \<rparr>]
   = [\<lparr> segment = \<lparr> seg_id = ''s1'', seg_text = ''one'', seg_start = 0, seg_end = 5 \<rparr>,
        score = Num (4094181479427723 / 4503599627370496) \<rparr>]"
    by (simp only: e1 e2 e3)
  moreover have "(4094181479427723 / 4503599627370496 :: real) \<noteq> 10 / 11" by simp
  moreover have "Num (4094181479427723 / 4503599627370496) \<noteq> roundDouble (10 / 11)"
    by (simp add: double_10_11)
  moreover have "Num (4094181479427723 / 4503599627370496) \<noteq> js_divide 1 (roundDouble (11 / 10))"
    by (simp add: double_1_over_11_10)
  ultimately show ?thesis by blast
qed

text \<open>When the top raw score is the smallest positive double, \<open>2^-1074\<close>, the product
  with 1.1 rounds back to it, the quotient is 1, and the cap 0.99 is what is posted.\<close>

lemma smallest_top_reaches_cap:
  "normalizeScoresDouble
     [\<lparr> segment = \<lparr> seg_id = ''s1'', seg_text = ''one'', seg_start = 0, seg_end = 5 \<rparr>,
        score = 2 powi (- 1074) \<rparr>]
   = [\<lparr> segment = \<lparr> seg_id = ''s1'', seg_text = ''one'', seg_start = 0, seg_end = 5 \<rparr>,
        score = roundDouble (99 / 100) \<rparr>]"
proof -
  have "roundDouble (2 powi (- 1074) * doubleOf (11 / 10)) = Num (of_int 1 * 2 powi (- 1074))"
  proof (rule roundDouble_subnormalI)
    show "0 < 2 powi (- 1074) * doubleOf (11 / 10)" by (simp add: doubleOf_11_10)
    have "2 powi (- 1074) * doubleOf (11 / 10) \<le> 2 powi (- 1074) * 2"
      by (intro mult_left_mono) (simp_all add: doubleOf_11_10)
    also have "\<dots> = 2 powi (- 1074) * 2 powi 1" by simp
    also have "\<dots> = 2 powi (- 1074 + 1)" by (rule power_int_add[symmetric]) simp
    also have "\<dots> < 2 powi (- 1022)" by (intro power_int_strict_increasing) simp_all
    finally show "2 powi (- 1074) * doubleOf (11 / 10) < 2 powi (- 1022)" .
    have "2 powi (- 1074) * doubleOf (11 / 10) / 2 powi (- 1074) = doubleOf (11 / 10)" by simp
    then show "\<bar>2 powi (- 1074) * doubleOf (11 / 10) / 2 powi (- 1074) - of_int 1\<bar> < 1 / 2"
      by (simp only:) (simp add: doubleOf_11_10)
  qed
  then have e1: "roundDouble (2 powi (- 1074) * doubleOf (11 / 10)) = Num (2 powi (- 1074))" by simp
  have "js_divide (2 powi (- 1074)) (Num (2 powi (- 1074))) = roundDouble (2 powi (- 1074) / 2 powi (- 1074))"
    by (rule js_divide_Num) simp
  also have "2 powi (- 1074) / 2 powi (- 1074) = (1::real)" by simp
  finally have e2: "js_divide (2 powi (- 1074)) (Num (2 powi (- 1074))) = Num 1"
    by (simp only: double_one)
  have e3: "js_min (Num 1) (roundDouble (99 / 100)) = roundDouble (99 / 100)"
    by (simp add: double_99_100)
  have "normalizeScoresDouble
     [\<lparr> segment = \<lparr> seg_id = ''s1'', seg_text = ''one'', seg_start = 0, seg_end = 5 \<rparr>,
        score = 2 powi (- 1074) \<rparr>]
   = [\<lparr> segment = \<lparr> seg_id = ''s1'', seg_text = ''one'', seg_start = 0, seg_end = 5 \<rparr>,
        score = js_min (js_divide (2 powi (- 1074))
                          (roundDouble (2 powi (- 1074) * doubleOf (11 / 10))))
                       (roundDouble (99 / 100)) \<rparr>]"
    by (simp add: normalizeScoresDouble_def Let_def del: power_int_numeral_neg_numeral)
  then show ?thesis by (simp only: e1 e2 e3)
qed

text \<open>
  Claim C10, amended: for every non-empty result list whose first score is the greatest
  (the list is sorted by descending score, lemma \<open>ranked_top\<close>) and lies in the range
  of the normal doubles, from \<open>2^-1022\<close> to \<open>2^1023\<close>: the divisor \<open>top * 1.1\<close> is a
  positive number, every posted score is the raw score divided by that divisor, rounded
  to a double, and is at most 0.91, so the cap 0.99 is not the binding value, and the top
  posted score is within \<open>10^-15\<close> of 1/1.1.
\<close>

theorem normalization_in_double_arithmetic:
  assumes "rs \<noteq> []" and "\<forall>r \<in> set rs. score r \<le> score (hd rs)"
    and "2 powi (- 1022) \<le> score (hd rs)" and "score (hd rs) \<le> 2 powi 1023"
  shows "\<exists>divisor. roundDouble (score (hd rs) * doubleOf (11 / 10)) = Num divisor \<and> 0 < divisor
      \<and> normalizeScoresDouble rs =
          map (\<lambda>r. \<lparr> segment = segment r, score = roundDouble (score r / divisor) \<rparr>) rs
      \<and> (\<forall>r \<in> set rs. js_le (roundDouble (score r / divisor)) (Num (91 / 100)))
      \<and> (\<exists>z. roundDouble (score (hd rs) / divisor) = Num z \<and> \<bar>z - 10 / 11\<bar> \<le> 1 / 10 ^ 15)"
proof -
  define t where "t = score (hd rs)"
  define c :: real where "c = 2476979795053773 / 2251799813685248"
  define P where "P = t * c"
  define u where "u = P / 2 ^ 53"
  have c1: "1 \<le> c" and c2: "c \<le> 3 / 2" by (simp_all add: c_def)
  have tlo: "2 powi (- 1022) \<le> t" and thi: "t \<le> 2 powi 1023"
    using assms(3,4) by (simp_all add: t_def)
  have tpos: "0 < t" using tlo by (rule less_le_trans[rotated]) simp
  have Plo: "2 powi (- 1022) \<le> P"
  proof -
    have "t * 1 \<le> t * c" using tpos c1 by (intro mult_left_mono) simp_all
    then have "t \<le> P" unfolding P_def by simp
    with tlo show ?thesis by (rule order_trans)
  qed
  have Phi: "P \<le> 3 * 2 powi 1022"
  proof -
    have "0 \<le> c" using c1 by linarith
    with thi c2 tpos have "t * c \<le> 2 powi 1023 * (3 / 2)" by (intro mult_mono) simp_all
    also have "\<dots> = 3 * 2 powi 1022" by simp
    finally show ?thesis by (simp only: P_def)
  qed
  from roundDouble_normal[OF Plo Phi]
  obtain den where den: "roundDouble P = Num den" and err: "\<bar>den - P\<bar> \<le> u"
    unfolding u_def by blast
  have d1: "P - u \<le> den" and d2: "den \<le> P + u"
    using err abs_le_iff[of "den - P" u] by linarith+
  define kl where "kl = c - c / 2 ^ 53"
  define ku where "ku = c + c / 2 ^ 53"
  have "t * kl = P - u" by (simp add: kl_def P_def u_def algebra_simps)
  with d1 have kl: "t * kl \<le> den" by simp
  have "t * ku = P + u" by (simp add: ku_def P_def u_def algebra_simps)
  with d2 have ku: "den \<le> t * ku" by simp
  have klpos: "0 < kl" and kupos: "0 < ku" by (simp_all add: kl_def ku_def c_def)
  have tklpos: "0 < t * kl" using tpos klpos by simp
  then have denpos: "0 < den" using kl by linarith
  define Q where "Q = t / den"
  have "Q \<le> t / (t * kl)"
    unfolding Q_def using kl tklpos denpos tpos by (intro divide_left_mono) simp_all
  also have "t / (t * kl) = 1 / kl" using tpos by simp
  also have "\<dots> \<le> 10 / 11 + 3 / 10 ^ 16" by (simp add: kl_def c_def)
  finally have Qhi: "Q \<le> 10 / 11 + 3 / 10 ^ 16" .
  have "10 / 11 - 3 / 10 ^ 16 \<le> 1 / ku" by (simp add: ku_def c_def)
  also have "1 / ku = t / (t * ku)" using tpos by simp
  also have "\<dots> \<le> Q"
    unfolding Q_def using ku denpos tpos kupos by (intro divide_left_mono) simp_all
  finally have Qlo: "10 / 11 - 3 / 10 ^ 16 \<le> Q" .
  have Qpos: "0 < Q" using tpos denpos by (simp add: Q_def)
  have n1: "(10::real) / 11 + 3 / 10 ^ 16 < 1" by simp
  have Qone: "Q < 1" using Qhi n1 by linarith
  from roundDouble_below_one[OF Qpos Qone]
  obtain z where z: "roundDouble Q = Num z" and zerr: "\<bar>z - Q\<bar> \<le> 1 / 2 ^ 54"
    by blast
  have n2: "(3::real) / 10 ^ 16 + 1 / 2 ^ 54 \<le> 1 / 10 ^ 15" by simp
  have zclose: "\<bar>z - 10 / 11\<bar> \<le> 1 / 10 ^ 15"
    using zerr Qhi Qlo n2 abs_le_iff[of "z - Q" "1 / 2 ^ 54"] abs_le_iff[of "z - 10 / 11" "1 / 10 ^ 15"]
    by linarith
  have n3: "(10::real) / 11 + 3 / 10 ^ 16 + 1 / 2 ^ 54 \<le> 91 / 100" by simp
  have each: "js_le (roundDouble (score r / den)) (Num (91 / 100))" if "r \<in> set rs" for r
  proof (cases "score r / den \<le> 0")
    case True
    then have "js_le (roundDouble (score r / den)) (Num 0)" by (rule roundDouble_nonpos)
    then show ?thesis by (rule js_le_Num_trans) simp
  next
    case False
    then have xpos: "0 < score r / den" by simp
    have "score r \<le> t" using assms(2) that by (simp add: t_def)
    then have xle: "score r / den \<le> Q" using denpos by (simp add: Q_def divide_right_mono)
    with Qone have xone: "score r / den < 1" by simp
    from roundDouble_below_one[OF xpos xone]
    obtain v where v: "roundDouble (score r / den) = Num v"
      and verr: "\<bar>v - score r / den\<bar> \<le> 1 / 2 ^ 54"
      by blast
    have "v \<le> 91 / 100"
      using verr xle Qhi n3 abs_le_iff[of "v - score r / den" "1 / 2 ^ 54"] by linarith
    then show ?thesis by (simp add: v)
  qed
  have n4: "(91::real) / 100 \<le> 4458563631096791 / 4503599627370496" by simp
  have cap: "js_min (roundDouble (score r / den)) (roundDouble (99 / 100)) = roundDouble (score r / den)"
    if "r \<in> set rs" for r
    unfolding double_99_100 using each[OF that] n4 by (rule js_min_below)
  obtain r0 rest where rs: "rs = r0 # rest" using assms(1) by (cases rs) auto
  have dv: "roundDouble (score (hd rs) * doubleOf (11 / 10)) = Num den"
    using den by (simp add: doubleOf_11_10 P_def t_def c_def)
  have "normalizeScoresDouble rs =
          map (\<lambda>r. \<lparr> segment = segment r,
                       score = js_min (js_divide (score r) (Num den)) (roundDouble (99 / 100)) \<rparr>) rs"
    using dv by (simp add: rs normalizeScoresDouble_def Let_def)
  also have "\<dots> = map (\<lambda>r. \<lparr> segment = segment r, score = roundDouble (score r / den) \<rparr>) rs"
    using cap denpos by (intro map_cong) simp_all
  finally have norm: "normalizeScoresDouble rs =
          map (\<lambda>r. \<lparr> segment = segment r, score = roundDouble (score r / den) \<rparr>) rs" .
  have ztop: "roundDouble (score (hd rs) / den) = Num z" using z by (simp add: Q_def t_def)
  from dv denpos norm each ztop zclose show ?thesis by blast
qed

theorem normalization_in_double_arithmetic_witness:
  "[\<lparr> segment = \<lparr> seg_id = ''s1'', seg_text = ''one'', seg_start = 0, seg_end = 5 \<rparr>,
     score = doubleOf (23 / 25) \<rparr>] \<noteq> []
   \<and> 2 powi (- 1022) \<le> doubleOf (23 / 25) \<and> doubleOf (23 / 25) \<le> 2 powi 1023
   \<and> (\<exists>divisor. roundDouble (doubleOf (23 / 25) * doubleOf (11 / 10)) = Num divisor \<and> 0 < divisor
        \<and> (\<exists>z. roundDouble (doubleOf (23 / 25) / divisor) = Num z \<and> \<bar>z - 10 / 11\<bar> \<le> 1 / 10 ^ 15))"
proof -
  let ?rs = "[\<lparr> segment = \<lparr> seg_id = ''s1'', seg_text = ''one'', seg_start = 0, seg_end = 5 \<rparr>,
     score = doubleOf (23 / 25) \<rparr>]"
  have a: "?rs \<noteq> []" by simp
  have b: "\<forall>r \<in> set ?rs. score r \<le> score (hd ?rs)" by simp
  have c: "2 powi (- 1022) \<le> score (hd ?rs)" by (simp add: doubleOf_23_25)
  have d: "score (hd ?rs) \<le> 2 powi 1023" by (simp add: doubleOf_23_25)
  from normalization_in_double_arithmetic[OF a b c d]
  obtain divisor z where r: "roundDouble (score (hd ?rs) * doubleOf (11 / 10)) = Num divisor"
      "0 < divisor" "roundDouble (score (hd ?rs) / divisor) = Num z" "\<bar>z - 10 / 11\<bar> \<le> 1 / 10 ^ 15"
    by blast
  then have e: "\<exists>divisor. roundDouble (doubleOf (23 / 25) * doubleOf (11 / 10)) = Num divisor \<and> 0 < divisor
        \<and> (\<exists>z. roundDouble (doubleOf (23 / 25) / divisor) = Num z \<and> \<bar>z - 10 / 11\<bar> \<le> 1 / 10 ^ 15)"
    by (simp only: list.sel search_result.simps) blast
  have c': "2 powi (- 1022) \<le> doubleOf (23 / 25)" using c by (simp only: list.sel search_result.simps)
  have d': "doubleOf (23 / 25) \<le> 2 powi 1023" using d by (simp only: list.sel search_result.simps)
  show ?thesis by (rule conjI[OF a conjI[OF c' conjI[OF d' e]]])
qed

section \<open>Sentences are parts of the text\<close>

lemma indexOfFrom_lower: "sublist sub s \<Longrightarrow> int i \<le> indexOfFrom i s sub"
proof (induction s arbitrary: i)
  case Nil
  then show ?case by simp
next
  case (Cons c cs)
  show ?case
  proof (cases "prefix sub (c # cs)")
    case True
    then show ?thesis by simp
  next
    case False
    with Cons.prems have "sublist sub cs" by (simp add: sublist_Cons_right)
    then have "int (Suc i) \<le> indexOfFrom (Suc i) cs sub" by (rule Cons.IH)
    with False show ?thesis by simp
  qed
qed

lemma indexOfFrom_upper: "indexOfFrom i s sub \<le> int (i + length s)"
proof (induction s arbitrary: i)
  case Nil
  show ?case by simp
next
  case (Cons c cs)
  from Cons[of "Suc i"] show ?case by simp
qed

lemma indexOfFrom_zero: "(indexOfFrom i s sub = int i) = prefix sub s"
proof (cases s)
  case Nil
  then show ?thesis by auto
next
  case (Cons c cs)
  have "indexOfFrom (Suc i) cs sub \<noteq> int i"
  proof (cases "sublist sub cs")
    case True
    then show ?thesis using indexOfFrom_lower[of sub cs "Suc i"] by simp
  next
    case False
    have "\<not> sublist sub t \<Longrightarrow> indexOfFrom k t sub = - 1" for t k
      by (induction t arbitrary: k) (auto simp: sublist_Cons_right)
    with False show ?thesis by simp
  qed
  with Cons show ?thesis by simp
qed

lemma indexOf_nonneg: "sublist sub s \<Longrightarrow> 0 \<le> indexOf s sub"
  using indexOfFrom_lower[of sub s 0] by (simp add: indexOf_def)

lemma indexOf_le_length: "indexOf s sub \<le> int (length s)"
  using indexOfFrom_upper[of 0 s sub] by (simp add: indexOf_def)

lemma indexOf_zero: "(indexOf s sub = 0) = prefix sub s"
  using indexOfFrom_zero[of 0 s sub] by (simp add: indexOf_def)

lemma trim_sublist: "sublist (trim s) s"
proof -
  have "suffix (dropWhile isWhiteSpace (rev (dropWhile isWhiteSpace s))) (rev (dropWhile isWhiteSpace s))"
    by (rule suffix_dropWhile)
  then have "prefix (trim s) (dropWhile isWhiteSpace s)"
    by (simp add: trim_def suffix_to_prefix)
  then have "sublist (trim s) (dropWhile isWhiteSpace s)"
    by (rule prefix_imp_sublist)
  moreover have "sublist (dropWhile isWhiteSpace s) s"
    by (intro suffix_imp_sublist suffix_dropWhile)
  ultimately show ?thesis by (rule sublist_order.order_trans)
qed

lemma sentenceMatches_sublist: "m \<in> set (sentenceMatches s) \<Longrightarrow> sublist m s"
proof (induction s arbitrary: m rule: sentenceMatches.induct)
  case 1
  then show ?case by simp
next
  case (2 c cs)
  show ?case
  proof (cases "isTerminator c")
    case True
    with "2.prems" have "m \<in> set (sentenceMatches cs)" by simp
    with True have "sublist m cs" by (intro "2.IH"(1))
    then show ?thesis by (simp add: sublist_Cons_right)
  next
    case False
    define body where "body = takeWhile (\<lambda>x. \<not> isTerminator x) (c # cs)"
    define rest where "rest = dropWhile (\<lambda>x. \<not> isTerminator x) (c # cs)"
    define punct where "punct = takeWhile isTerminator rest"
    define rest' where "rest' = dropWhile isTerminator rest"
    have split1: "c # cs = body @ rest" by (simp add: body_def rest_def)
    have split2: "rest = punct @ rest'" by (simp add: punct_def rest'_def)
    have eq: "sentenceMatches (c # cs) =
       (if rest = [] then [body]
        else case rest' of
               [] \<Rightarrow> [body @ punct]
             | q # rest'' \<Rightarrow>
                 if isQuote q then (body @ punct @ [q]) # sentenceMatches rest''
                 else (body @ punct) # sentenceMatches rest')"
      unfolding body_def rest_def punct_def rest'_def
      by (subst sentenceMatches.simps(2)) (simp only: False if_False Let_def)
    from "2.prems" have mem: "m \<in> set (if rest = [] then [body]
        else case rest' of
               [] \<Rightarrow> [body @ punct]
             | q # rest'' \<Rightarrow>
                 if isQuote q then (body @ punct @ [q]) # sentenceMatches rest''
                 else (body @ punct) # sentenceMatches rest')"
      by (simp only: eq)
    show ?thesis
    proof (cases "rest = []")
      case True
      with mem have "m = body" by simp
      with split1 True show ?thesis by simp
    next
      case nonempty: False
      show ?thesis
      proof (cases rest')
        case Nil
        with mem nonempty have "m = body @ punct" by simp
        with split1 split2 Nil show ?thesis by simp
      next
        case (Cons q rest'')
        show ?thesis
        proof (cases "isQuote q")
          case True
          with mem nonempty Cons
          have "m = body @ punct @ [q] \<or> m \<in> set (sentenceMatches rest'')"
            by simp
          then show ?thesis
          proof
            assume "m = body @ punct @ [q]"
            then have "c # cs = m @ rest''" using split1 split2 Cons by simp
            then show ?thesis by (metis sublist_append_rightI)
          next
            assume "m \<in> set (sentenceMatches rest'')"
            then have "sublist m rest''"
              using "2.IH"(2)[OF False body_def rest_def nonempty punct_def rest'_def Cons True]
              by simp
            moreover have "c # cs = (body @ punct @ [q]) @ rest''"
              using split1 split2 Cons by simp
            ultimately show ?thesis by (metis sublist_append_leftI sublist_order.order_trans)
          qed
        next
          case notq: False
          with mem nonempty Cons
          have "m = body @ punct \<or> m \<in> set (sentenceMatches rest')"
            by simp
          then show ?thesis
          proof
            assume "m = body @ punct"
            then have "c # cs = m @ rest'" using split1 split2 by simp
            then show ?thesis by (metis sublist_append_rightI)
          next
            assume "m \<in> set (sentenceMatches rest')"
            then have "sublist m rest'"
              using "2.IH"(3)[OF False body_def rest_def nonempty punct_def rest'_def Cons notq]
              by simp
            moreover have "c # cs = (body @ punct) @ rest'"
              using split1 split2 by simp
            ultimately show ?thesis by (metis sublist_append_leftI sublist_order.order_trans)
          qed
        qed
      qed
    qed
  qed
qed

lemma sentencesOf_sublist: "s \<in> set (sentencesOf txt) \<Longrightarrow> sublist s txt"
proof (cases "sentenceMatches txt")
  case Nil
  assume "s \<in> set (sentencesOf txt)"
  with Nil show ?thesis by (simp add: sentencesOf_def)
next
  case (Cons m ms)
  assume "s \<in> set (sentencesOf txt)"
  moreover from Cons have "sentencesOf txt = filter (\<lambda>s. 0 < length s) (map trim (sentenceMatches txt))"
    by (simp add: sentencesOf_def)
  ultimately have "s \<in> set (map trim (sentenceMatches txt))"
    by (simp del: map_eq_conv)
  then obtain m' where m': "m' \<in> set (sentenceMatches txt)" "s = trim m'"
    by auto
  have "sublist (trim m') m'" by (rule trim_sublist)
  moreover have "sublist m' txt" using m'(1) by (rule sentenceMatches_sublist)
  ultimately show ?thesis using m'(2) by (metis sublist_order.order_trans)
qed

section \<open>The chunker on short texts\<close>

lemma chunkLoop_single:
  assumes "0 < length ss" "length ss \<le> WINDOW_SIZE"
  shows "chunkLoop txt ss 0 [] = [mkChunk txt ss]"
  using assms by (subst chunkLoop.simps) (simp add: Let_def)

lemma mkChunk_ratios:
  assumes "txt \<noteq> []"
  shows "startRatio (mkChunk txt w) =
           Num (max 0 (real_of_int (indexOf txt (case w of [] \<Rightarrow> [] | s # _ \<Rightarrow> s)) / real (length txt)))"
    and "endRatio (mkChunk txt w) =
           Num (min 1 (real_of_int (indexOf txt (case w of [] \<Rightarrow> [] | s # _ \<Rightarrow> s) + int (length (join '' '' w)))
                        / real (length txt)))"
    and "chunk_text (mkChunk txt w) = join '' '' w"
  using assms by (simp_all add: mkChunk_def js_div_def Let_def)

text \<open>
  Claim C4 says that a non-empty text of fewer than three sentences yields one chunk with
  the ratios 0 and 1. The text \<open>Hi.  Yo\<close> (two spaces) has the two sentences
  \<open>Hi.\<close> and \<open>Yo\<close>; joined by one space they have 6 characters, the text has 7,
  and the end ratio of the one chunk is 6/7.
\<close>

theorem chunker_double_space_counterexample:
  "''Hi.  Yo'' \<noteq> [] \<and> length (sentencesOf ''Hi.  Yo'') = 2 \<and> 2 < WINDOW_SIZE \<and>
   chunkTextWithWindow ''Hi.  Yo'' =
     [\<lparr> chunk_text = ''Hi. Yo'', startRatio = Num 0, endRatio = Num (6 / 7) \<rparr>] \<and>
   Num (6 / 7) \<noteq> Num 1"
  by (simp add: chunkTextWithWindow_def chunkLoop.simps sentencesOf_def mkChunk_def WINDOW_SIZE_def
      indexOf_def js_div_def isTerminator_def trim_def isWhiteSpace_def isQuote_def)

text \<open>
  Claim C4, amended: a non-empty text that splits into one or two sentences yields exactly
  one chunk, whose text is the sentences joined by one space. Its start ratio is 0
  exactly when the text begins with its first sentence, and its end ratio is 1 exactly
  when the offset of the first sentence plus the length of the joined text reaches the
  length of the text.
\<close>

theorem chunker_short_text:
  assumes "txt \<noteq> []" and "0 < length (sentencesOf txt)" and "length (sentencesOf txt) < WINDOW_SIZE"
  shows "\<exists>c. chunkTextWithWindow txt = [c]
     \<and> chunk_text c = join '' '' (sentencesOf txt)
     \<and> (startRatio c = Num 0 \<longleftrightarrow> prefix (hd (sentencesOf txt)) txt)
     \<and> (endRatio c = Num 1 \<longleftrightarrow>
          int (length txt) \<le> indexOf txt (hd (sentencesOf txt)) + int (length (join '' '' (sentencesOf txt))))"
proof -
  let ?ss = "sentencesOf txt"
  let ?len = "real (length txt)"
  have len: "0 < ?len" using assms(1) by simp
  have one: "chunkTextWithWindow txt = [mkChunk txt ?ss]"
    unfolding chunkTextWithWindow_def using assms(2,3) by (intro chunkLoop_single) simp_all
  have hd: "(case ?ss of [] \<Rightarrow> [] | s # _ \<Rightarrow> s) = hd ?ss"
    using assms(2) by (cases ?ss) simp_all
  have "hd ?ss \<in> set ?ss" using assms(2) by simp
  then have found: "0 \<le> indexOf txt (hd ?ss)"
    by (intro indexOf_nonneg sentencesOf_sublist)
  have s: "startRatio (mkChunk txt ?ss) = Num 0 \<longleftrightarrow> prefix (hd ?ss) txt"
  proof -
    have "max 0 y = 0 \<longleftrightarrow> y \<le> 0" for y :: real
      by (auto simp: max_def)
    moreover have "real_of_int (indexOf txt (hd ?ss)) / ?len \<le> 0 \<longleftrightarrow> indexOf txt (hd ?ss) \<le> 0"
      using len by (simp add: divide_le_0_iff)
    moreover have "indexOf txt (hd ?ss) \<le> 0 \<longleftrightarrow> prefix (hd ?ss) txt"
      using found indexOf_zero[of "txt" "hd ?ss"] by linarith
    ultimately show ?thesis
      by (simp add: mkChunk_ratios(1)[OF assms(1)] hd)
  qed
  have e: "endRatio (mkChunk txt ?ss) = Num 1 \<longleftrightarrow>
          int (length txt) \<le> indexOf txt (hd ?ss) + int (length (join '' '' ?ss))"
  proof -
    have "1 \<le> real_of_int (indexOf txt (hd ?ss) + int (length (join '' '' ?ss))) / ?len \<longleftrightarrow>
          int (length txt) \<le> indexOf txt (hd ?ss) + int (length (join '' '' ?ss))"
      using len by (simp add: le_divide_eq) linarith
    then show ?thesis
      by (simp add: mkChunk_ratios(2)[OF assms(1)] hd min_def)
  qed
  show ?thesis
    using one s e by (simp add: mkChunk_ratios(3)[OF assms(1)])
qed

theorem chunker_short_text_witness:
  "''Hi.  Yo'' \<noteq> [] \<and> 0 < length (sentencesOf ''Hi.  Yo'') \<and>
   length (sentencesOf ''Hi.  Yo'') < WINDOW_SIZE \<and>
   (\<exists>c. chunkTextWithWindow ''Hi.  Yo'' = [c]
     \<and> chunk_text c = join '' '' (sentencesOf ''Hi.  Yo'')
     \<and> (startRatio c = Num 0 \<longleftrightarrow> prefix (hd (sentencesOf ''Hi.  Yo'')) ''Hi.  Yo'')
     \<and> (endRatio c = Num 1 \<longleftrightarrow>
          int (length ''Hi.  Yo'') \<le> indexOf ''Hi.  Yo'' (hd (sentencesOf ''Hi.  Yo''))
             + int (length (join '' '' (sentencesOf ''Hi.  Yo'')))))"
proof -
  have ss: "sentencesOf ''Hi.  Yo'' = [''Hi.'', ''Yo'']"
    by (simp add: sentencesOf_def isTerminator_def trim_def isWhiteSpace_def isQuote_def)
  have a: "''Hi.  Yo'' \<noteq> []" by simp
  have b: "0 < length (sentencesOf ''Hi.  Yo'')" by (simp add: ss)
  have c: "length (sentencesOf ''Hi.  Yo'') < WINDOW_SIZE" by (simp add: ss WINDOW_SIZE_def)
  from a b c chunker_short_text[OF a b c] show ?thesis
    by (intro conjI)
qed

section \<open>The chunker on non-empty texts\<close>

text \<open>
  The loop pushes one chunk for each window start \<open>0, 1, ...\<close> up to the first window
  that reaches the last sentence. On a non-empty text every sentence lies in a window,
  every window has a sentence, and the start ratio of a chunk is at most its end ratio.
\<close>

lemma chunkLoop_windows:
  "chunkLoop t ss i acc =
     acc @ map (\<lambda>k. mkChunk t (take WINDOW_SIZE (drop k ss)))
             [i ..< (if i < length ss then max (Suc i) (length ss - 2) else i)]"
proof (induction t ss i acc rule: chunkLoop.induct)
  case (1 t ss i chunks)
  show ?case
  proof (cases "i < length ss")
    case False
    then show ?thesis by (subst chunkLoop.simps) simp
  next
    case True
    then have w: "length (take WINDOW_SIZE (drop i ss)) \<noteq> 0"
      by (simp add: WINDOW_SIZE_def)
    show ?thesis
    proof (cases "i + WINDOW_SIZE \<ge> length ss")
      case last: True
      then have "max (Suc i) (length ss - 2) = Suc i"
        unfolding WINDOW_SIZE_def by linarith
      with True w last show ?thesis
        by (subst chunkLoop.simps) (simp add: Let_def)
    next
      case more: False
      then have up: "max (Suc i) (length ss - 2) = length ss - 2"
        "max (Suc (Suc i)) (length ss - 2) = length ss - 2" "Suc i < length ss"
        "i < length ss - 2"
        unfolding WINDOW_SIZE_def by linarith+
      have "chunkLoop t ss (i + STRIDE) (chunks @ [mkChunk t (take WINDOW_SIZE (drop i ss))]) =
            (chunks @ [mkChunk t (take WINDOW_SIZE (drop i ss))]) @
            map (\<lambda>k. mkChunk t (take WINDOW_SIZE (drop k ss))) [Suc i ..< length ss - 2]"
        using "1.IH"[OF True refl w refl more] up by (simp add: STRIDE_def)
      moreover have "chunkLoop t ss i chunks =
            chunkLoop t ss (i + STRIDE) (chunks @ [mkChunk t (take WINDOW_SIZE (drop i ss))])"
        using True w more by (subst chunkLoop.simps) (simp add: Let_def)
      ultimately show ?thesis
        using True up by (simp add: upt_conv_Cons)
    qed
  qed
qed

lemma chunker_windows:
  "chunkTextWithWindow txt =
     map (\<lambda>k. mkChunk txt (take WINDOW_SIZE (drop k (sentencesOf txt))))
         [0 ..< (if sentencesOf txt = [] then 0 else max 1 (length (sentencesOf txt) - 2))]"
  by (simp add: chunkTextWithWindow_def chunkLoop_windows)

lemma chunker_length:
  "length (chunkTextWithWindow txt) =
     (if sentencesOf txt = [] then 0 else max 1 (length (sentencesOf txt) - 2))"
  by (simp add: chunker_windows)

lemma chunker_nth:
  assumes "k < length (chunkTextWithWindow txt)"
  shows "chunkTextWithWindow txt ! k = mkChunk txt (take WINDOW_SIZE (drop k (sentencesOf txt)))"
    and "k < length (sentencesOf txt)"
proof -
  from assms have k: "k < (if sentencesOf txt = [] then 0 else max 1 (length (sentencesOf txt) - 2))"
    by (simp only: chunker_length)
  then show "chunkTextWithWindow txt ! k = mkChunk txt (take WINDOW_SIZE (drop k (sentencesOf txt)))"
    by (simp only: chunker_windows nth_map_upt) simp
  from k show "k < length (sentencesOf txt)"
    by (cases "sentencesOf txt = []") (auto simp: max_def split: if_splits)
qed

lemma chunker_covers:
  assumes "j < length (sentencesOf txt)"
  shows "\<exists>k < length (chunkTextWithWindow txt). k \<le> j \<and> j < k + WINDOW_SIZE"
proof -
  let ?n = "length (sentencesOf txt)"
  let ?k = "min j (?n - 3)"
  have "sentencesOf txt \<noteq> []" using assms by auto
  then have "?k < length (chunkTextWithWindow txt)"
    using assms by (simp add: chunker_length max_def min_def) linarith
  moreover have "?k \<le> j" by simp
  moreover have "j < ?k + WINDOW_SIZE" using assms unfolding WINDOW_SIZE_def by linarith
  ultimately show ?thesis by blast
qed

lemma chunker_ratio_order:
  assumes "txt \<noteq> []" "k < length (chunkTextWithWindow txt)"
  shows "js_le (startRatio (chunkTextWithWindow txt ! k)) (endRatio (chunkTextWithWindow txt ! k))"
proof -
  let ?ss = "sentencesOf txt"
  let ?w = "take WINDOW_SIZE (drop k ?ss)"
  let ?len = "real (length txt)"
  have k: "k < length ?ss" using assms(2) by (rule chunker_nth(2))
  have c: "chunkTextWithWindow txt ! k = mkChunk txt ?w" using assms(2) by (rule chunker_nth(1))
  have hd: "(case ?w of [] \<Rightarrow> [] | s # _ \<Rightarrow> s) = ?ss ! k"
    using k by (cases "drop k ?ss") (simp_all add: WINDOW_SIZE_def hd_drop_conv_nth[symmetric])
  let ?idx = "indexOf txt (?ss ! k)"
  have "?ss ! k \<in> set ?ss" using k by simp
  then have lo: "0 \<le> ?idx" by (intro indexOf_nonneg sentencesOf_sublist)
  have hi: "?idx \<le> int (length txt)" by (rule indexOf_le_length)
  have len: "0 < ?len" using assms(1) by simp
  have a: "real_of_int ?idx / ?len \<le> 1" using hi len by (simp add: divide_le_eq_1)
  have b: "real_of_int ?idx / ?len \<le> real_of_int (?idx + int (length (join '' '' ?w))) / ?len"
    using len by (simp add: divide_right_mono)
  have z: "0 \<le> real_of_int ?idx / ?len" using lo len by simp
  from a b z show ?thesis
    by (simp add: c mkChunk_ratios(1,2)[OF assms(1)] hd)
qed

lemma sentencesOf_nonempty:
  assumes "t \<noteq> []" "s \<in> set (sentencesOf t)"
  shows "s \<noteq> []"
proof (cases "sentenceMatches t")
  case Nil
  with assms show ?thesis by (simp add: sentencesOf_def)
next
  case (Cons m ms)
  then have "sentencesOf t = filter (\<lambda>s. 0 < length s) (map trim (sentenceMatches t))"
    by (simp add: sentencesOf_def)
  with assms(2) have "0 < length s" by (simp del: map_eq_conv)
  then show ?thesis by simp
qed

lemma join_nonempty: "w \<noteq> [] \<Longrightarrow> hd w \<noteq> [] \<Longrightarrow> join sep w \<noteq> []"
  by (induction sep w rule: join.induct) simp_all

lemma chunker_window_nonempty:
  assumes "t \<noteq> []" "k < length (chunkTextWithWindow t)"
  shows "take WINDOW_SIZE (drop k (sentencesOf t)) \<noteq> []"
    and "chunk_text (chunkTextWithWindow t ! k) \<noteq> []"
proof -
  let ?ss = "sentencesOf t"
  let ?w = "take WINDOW_SIZE (drop k ?ss)"
  have k: "k < length ?ss" using assms(2) by (rule chunker_nth(2))
  then show w: "?w \<noteq> []" by (simp add: WINDOW_SIZE_def)
  have "hd ?w = ?ss ! k"
    using k by (simp add: WINDOW_SIZE_def hd_drop_conv_nth)
  moreover have "?ss ! k \<in> set ?ss" using k by simp
  ultimately have "hd ?w \<noteq> []" using sentencesOf_nonempty[OF assms(1)] by simp
  with w have "join '' '' ?w \<noteq> []" by (rule join_nonempty)
  then show "chunk_text (chunkTextWithWindow t ! k) \<noteq> []"
    by (simp add: chunker_nth(1)[OF assms(2)] mkChunk_def Let_def)
qed

text \<open>
  Claim C5, amended: for every non-empty input text, and the indexer gives the chunker
  no other (lemma \<open>collectSegments_text_nonempty\<close>), every sentence of the text lies
  in the window of some chunk, whose text is that window joined by spaces; every window
  has a sentence and every chunk a non-empty text; and the start ratio of every chunk is
  at most its end ratio.
\<close>

theorem chunker_properties_nonempty_text:
  assumes "txt \<noteq> []"
  shows "(\<forall>j < length (sentencesOf txt). \<exists>k < length (chunkTextWithWindow txt).
            k \<le> j \<and> j < k + WINDOW_SIZE \<and>
            chunk_text (chunkTextWithWindow txt ! k) =
              join '' '' (take WINDOW_SIZE (drop k (sentencesOf txt))))
       \<and> (\<forall>k < length (chunkTextWithWindow txt).
            take WINDOW_SIZE (drop k (sentencesOf txt)) \<noteq> [] \<and>
            chunk_text (chunkTextWithWindow txt ! k) \<noteq> [])
       \<and> (\<forall>k < length (chunkTextWithWindow txt).
            js_le (startRatio (chunkTextWithWindow txt ! k)) (endRatio (chunkTextWithWindow txt ! k)))"
proof (intro conjI allI impI)
  fix j assume "j < length (sentencesOf txt)"
  then obtain k where k: "k < length (chunkTextWithWindow txt)" "k \<le> j" "j < k + WINDOW_SIZE"
    using chunker_covers by blast
  have "chunk_text (chunkTextWithWindow txt ! k) = join '' '' (take WINDOW_SIZE (drop k (sentencesOf txt)))"
    by (simp add: chunker_nth(1)[OF k(1)] mkChunk_def Let_def)
  with k show "\<exists>k < length (chunkTextWithWindow txt).
            k \<le> j \<and> j < k + WINDOW_SIZE \<and>
            chunk_text (chunkTextWithWindow txt ! k) =
              join '' '' (take WINDOW_SIZE (drop k (sentencesOf txt)))"
    by blast
next
  fix k assume "k < length (chunkTextWithWindow txt)"
  with assms show "take WINDOW_SIZE (drop k (sentencesOf txt)) \<noteq> []"
    by (rule chunker_window_nonempty(1))
next
  fix k assume "k < length (chunkTextWithWindow txt)"
  with assms show "chunk_text (chunkTextWithWindow txt ! k) \<noteq> []"
    by (rule chunker_window_nonempty(2))
next
  fix k assume "k < length (chunkTextWithWindow txt)"
  with assms show "js_le (startRatio (chunkTextWithWindow txt ! k)) (endRatio (chunkTextWithWindow txt ! k))"
    by (rule chunker_ratio_order)
qed

theorem chunker_properties_nonempty_text_witness:
  "''A. B. C. D.'' \<noteq> []
   \<and> length (sentencesOf ''A. B. C. D.'') = 4
   \<and> map chunk_text (chunkTextWithWindow ''A. B. C. D.'') = [''A. B. C.'', ''B. C. D.'']
   \<and> (\<exists>k < length (chunkTextWithWindow ''A. B. C. D.''). k \<le> 3 \<and> 3 < k + WINDOW_SIZE \<and>
         chunk_text (chunkTextWithWindow ''A. B. C. D.'' ! k) =
           join '' '' (take WINDOW_SIZE (drop k (sentencesOf ''A. B. C. D.''))))
   \<and> take WINDOW_SIZE (drop 1 (sentencesOf ''A. B. C. D.'')) \<noteq> []
   \<and> chunk_text (chunkTextWithWindow ''A. B. C. D.'' ! 1) \<noteq> []
   \<and> js_le (startRatio (chunkTextWithWindow ''A. B. C. D.'' ! 1))
            (endRatio (chunkTextWithWindow ''A. B. C. D.'' ! 1))"
proof -
  have a: "''A. B. C. D.'' \<noteq> []" by simp
  have s: "sentencesOf ''A. B. C. D.'' = [''A.'', ''B.'', ''C.'', ''D.'']"
    by (simp add: sentencesOf_def isTerminator_def trim_def isWhiteSpace_def isQuote_def)
  have l: "length (sentencesOf ''A. B. C. D.'') = 4" by (simp add: s)
  have m: "map chunk_text (chunkTextWithWindow ''A. B. C. D.'') = [''A. B. C.'', ''B. C. D.'']"
    by (simp add: chunkTextWithWindow_def s chunkLoop.simps WINDOW_SIZE_def STRIDE_def mkChunk_def Let_def)
  have "length (map chunk_text (chunkTextWithWindow ''A. B. C. D.'')) = 2" by (simp only: m) simp
  then have n: "1 < length (chunkTextWithWindow ''A. B. C. D.'')" by simp
  have l3: "3 < length (sentencesOf ''A. B. C. D.'')" by (simp add: l)
  note t = chunker_properties_nonempty_text[OF a]
  from t l3 have c: "\<exists>k < length (chunkTextWithWindow ''A. B. C. D.''). k \<le> 3 \<and> 3 < k + WINDOW_SIZE \<and>
         chunk_text (chunkTextWithWindow ''A. B. C. D.'' ! k) =
           join '' '' (take WINDOW_SIZE (drop k (sentencesOf ''A. B. C. D.'')))"
    by blast
  from t n have w: "take WINDOW_SIZE (drop 1 (sentencesOf ''A. B. C. D.'')) \<noteq> []"
    by blast
  from t n have x: "chunk_text (chunkTextWithWindow ''A. B. C. D.'' ! 1) \<noteq> []"
    by blast
  from t n have r: "js_le (startRatio (chunkTextWithWindow ''A. B. C. D.'' ! 1))
            (endRatio (chunkTextWithWindow ''A. B. C. D.'' ! 1))"
    by blast
  show ?thesis
    by (rule conjI[OF a conjI[OF l conjI[OF m conjI[OF c conjI[OF w conjI[OF x r]]]]]])
qed

end
